theory Spec2Isabelle
  imports Main "HOL-Library.List_Lexorder" "HOL-Library.Char_ord" "HOL-Library.Multiset"
    "HOL-Library.Sublist"
begin

section \<open>Object model\<close>

text \<open>
  The scripts of the repository work on a bare git repository through the
  isomorphic-git library.  A tree entry is the JavaScript object
  \<^verbatim>\<open>{ mode, path, oid, type }\<close> that \<^verbatim>\<open>git.readTree\<close> returns and
  \<^verbatim>\<open>git.writeTree\<close> accepts.
\<close>

datatype otype = TBlob | TTree

datatype 'h tree_entry =
  Entry (mode: string) (path: string) (oid: 'h) (type: otype)

text \<open>
  Modelled from the spec: the object identifiers of the external object store.
  Section 3 of the specification takes a hash to be a collision-free
  fingerprint of the canonical content, so an identifier is modelled by the
  content it names: a blob by its bytes, a tree by its list of entries (whose
  children are identifiers again, the Merkle structure).
\<close>

datatype hash = HBlob string | HTree "hash tree_entry list"

type_synonym entry = "hash tree_entry"

text \<open>The object database: the set of identifiers whose object is present.\<close>

type_synonym store = "hash set"

datatype error =
    NotFoundError hash            \<comment> \<open>the object store has no such object\<close>
  | ObjectTypeError hash          \<comment> \<open>the object is not a tree\<close>
  | EmptyPath                     \<comment> \<open>an empty array of path parts\<close>
  | SegmentNotFound string hash   \<comment> \<open>remove: \<^verbatim>\<open>Path segment '..' not found in tree ..\<close>\<close>
  | NotADirectory string          \<comment> \<open>remove: \<^verbatim>\<open>.. is not a directory.\<close>\<close>
  | PathNotFound string string  \<comment> \<open>read: \<^verbatim>\<open>Path '..' not found (missing '..')\<close>\<close>
  | IsAFile string                \<comment> \<open>read: \<^verbatim>\<open>Path segment '..' is a file, not a directory.\<close>\<close>
  | MergeConflict string          \<comment> \<open>merge: \<^verbatim>\<open>Merge Conflict at file '..'. No resolution provided.\<close>\<close>
  | TypeError                     \<comment> \<open>merge: \<^verbatim>\<open>Buffer.from\<close> of a value that is no string\<close>
  | RefNotFound string
  | CommitNotFound
  | ConcurrencyError string
  | NoMergeBase
  | UsageError

text \<open>
  Modelled from the spec: \<^verbatim>\<open>git.readTree\<close> of the external library
  (ObjectStore \<^verbatim>\<open>get\<close>).  It fails when the object is absent and when
  the object is not a tree; otherwise it returns the entries of the tree.
\<close>

definition readTree :: "store \<Rightarrow> hash \<Rightarrow> error + entry list" where
  "readTree s sha =
     (if sha \<notin> s then Inl (NotFoundError sha)
      else case sha of
             HTree es \<Rightarrow> Inr es
           | HBlob _ \<Rightarrow> Inl (ObjectTypeError sha))"

text \<open>
  Modelled from the spec: \<^verbatim>\<open>git.writeTree\<close> of the external library
  (ObjectStore \<^verbatim>\<open>put\<close>).  The library serialises the entries in a
  canonical order before hashing; the model orders them by name, which fixes
  one list for every set of entries with unique names.
\<close>

definition writeTree :: "store \<Rightarrow> entry list \<Rightarrow> store \<times> hash" where
  "writeTree s es = (let h = HTree (sort_key path es) in (insert h s, h))"

text \<open>Modelled from the spec: \<^verbatim>\<open>git.writeBlob\<close> of the external library.\<close>

definition writeBlob :: "store \<Rightarrow> string \<Rightarrow> store \<times> hash" where
  "writeBlob s content = (let h = HBlob content in (insert h s, h))"

section \<open>add-file-deep.js: recursive upsert\<close>

text \<open>
  \<^verbatim>\<open>upsertTree(dir, parentTreeSha, pathParts, fileBlobSha)\<close>.  The
  destructuring \<^verbatim>\<open>[currentPart, ...remainingParts] = pathParts\<close> is the
  pattern of the second equation.  \<^verbatim>\<open>main\<close> obtains \<^verbatim>\<open>pathParts\<close>
  from \<^verbatim>\<open>String.split\<close>, which never returns an empty array; the first
  equation gives that unreachable case an error value.  The source reads the
  parent tree a second time to find the existing entry; the store is unchanged
  in between, so the model searches the entries of the first read.
\<close>

fun upsertTree :: "store \<Rightarrow> hash option \<Rightarrow> string list \<Rightarrow> hash \<Rightarrow> store \<times> (error + hash)" where
  "upsertTree s parentTreeSha [] fileBlobSha = (s, Inl EmptyPath)"
| "upsertTree s parentTreeSha (currentPart # remainingParts) fileBlobSha =
     (case (case parentTreeSha of None \<Rightarrow> Inr [] | Some sha \<Rightarrow> readTree s sha) of
        Inl e \<Rightarrow> (s, Inl e)
      | Inr tree0 \<Rightarrow>
          let entries = filter (\<lambda>e. path e \<noteq> currentPart) tree0 in
          if remainingParts = [] then
            (case writeTree s (entries @ [Entry ''100644'' currentPart fileBlobSha TBlob]) of
               (s', h) \<Rightarrow> (s', Inr h))
          else
            let existingEntry = find (\<lambda>e. path e = currentPart) tree0;
                existingSubTreeSha = map_option oid existingEntry
            in (case upsertTree s existingSubTreeSha remainingParts fileBlobSha of
                  (s', Inl e) \<Rightarrow> (s', Inl e)
                | (s', Inr newSubTreeSha) \<Rightarrow>
                    (case writeTree s' (entries @ [Entry ''040000'' currentPart newSubTreeSha TTree]) of
                       (s'', h) \<Rightarrow> (s'', Inr h))))"

section \<open>remove-file-deep.js: recursive removal with pruning\<close>

text \<open>\<^verbatim>\<open>Array.prototype.findIndex\<close>: the first index that satisfies the test; \<open>None\<close> is \<open>-1\<close>.\<close>

fun findIndex :: "('a \<Rightarrow> bool) \<Rightarrow> 'a list \<Rightarrow> nat option" where
  "findIndex P [] = None"
| "findIndex P (x # xs) =
     (if P x then Some 0 else map_option Suc (findIndex P xs))"

text \<open>\<^verbatim>\<open>entries.splice(i, 1)\<close>: the list without its element at index \<open>i\<close>.\<close>

definition splice1 :: "nat \<Rightarrow> 'a list \<Rightarrow> 'a list" where
  "splice1 i xs = take i xs @ drop (Suc i) xs"

text \<open>\<^verbatim>\<open>entries[i].oid = sha\<close>: the entry keeps its mode, path and type.\<close>

definition setOid :: "nat \<Rightarrow> hash \<Rightarrow> entry list \<Rightarrow> entry list" where
  "setOid i sha xs = xs[i := Entry (mode (xs ! i)) (path (xs ! i)) sha (type (xs ! i))]"

text \<open>
  Steps 4 and 5 of \<^verbatim>\<open>removeTreeEntry\<close>: an empty entry list is answered by
  \<^verbatim>\<open>null\<close> (\<open>None\<close>) and nothing is written.
\<close>

definition finishRemove :: "store \<Rightarrow> entry list \<Rightarrow> store \<times> (error + hash option)" where
  "finishRemove s entries =
     (if entries = [] then (s, Inr None)
      else case writeTree s entries of (s', h) \<Rightarrow> (s', Inr (Some h)))"

fun removeTreeEntry :: "store \<Rightarrow> hash \<Rightarrow> string list \<Rightarrow> store \<times> (error + hash option)" where
  "removeTreeEntry s treeSha [] = (s, Inl EmptyPath)"
| "removeTreeEntry s treeSha (currentPart # remainingParts) =
     (case readTree s treeSha of
        Inl e \<Rightarrow> (s, Inl e)
      | Inr entries \<Rightarrow>
          (case findIndex (\<lambda>e. path e = currentPart) entries of
             None \<Rightarrow> (s, Inl (SegmentNotFound currentPart treeSha))
           | Some entryIndex \<Rightarrow>
               if remainingParts = [] then
                 finishRemove s (splice1 entryIndex entries)
               else
                 let entry = entries ! entryIndex in
                 if type entry \<noteq> TTree then (s, Inl (NotADirectory currentPart))
                 else
                   (case removeTreeEntry s (oid entry) remainingParts of
                      (s', Inl e) \<Rightarrow> (s', Inl e)
                    | (s', Inr None) \<Rightarrow> finishRemove s' (splice1 entryIndex entries)
                    | (s', Inr (Some newSubTreeSha)) \<Rightarrow>
                        finishRemove s' (setOid entryIndex newSubTreeSha entries))))"

text \<open>
  Step 3 of \<^verbatim>\<open>main\<close> in remove-file-deep.js: when the marker reaches the
  root, an explicit empty tree is written.
\<close>

definition removeRoot :: "store \<Rightarrow> hash \<Rightarrow> string list \<Rightarrow> store \<times> (error + hash)" where
  "removeRoot s rootTreeSha pathParts =
     (case removeTreeEntry s rootTreeSha pathParts of
        (s', Inl e) \<Rightarrow> (s', Inl e)
      | (s', Inr None) \<Rightarrow> (case writeTree s' [] of (s'', h) \<Rightarrow> (s'', Inr h))
      | (s', Inr (Some h)) \<Rightarrow> (s', Inr h))"

section \<open>read-file.js: walking to an entry\<close>

record target =
  sha :: hash
  tmode :: "string option"
  ttype :: otype

text \<open>
  The loop of \<^verbatim>\<open>resolveBlobEntry\<close> over \<^verbatim>\<open>parts\<close>; \<open>prev\<close> is
  \<^verbatim>\<open>parts[i-1]\<close>, used only in the message of the error.
\<close>

fun walkParts :: "store \<Rightarrow> string \<Rightarrow> target \<Rightarrow> string \<Rightarrow> string list \<Rightarrow> error + target" where
  "walkParts s targetPath cur prev [] = Inr cur"
| "walkParts s targetPath cur prev (part # rest) =
     (if ttype cur \<noteq> TTree then Inl (IsAFile prev)
      else case readTree s (sha cur) of
             Inl e \<Rightarrow> Inl e
           | Inr tree0 \<Rightarrow>
               (case find (\<lambda>e. path e = part) tree0 of
                  None \<Rightarrow> Inl (PathNotFound targetPath part)
                | Some entry \<Rightarrow>
                    walkParts s targetPath
                      \<lparr>sha = oid entry, tmode = Some (mode entry), ttype = type entry\<rparr> part rest))"

text \<open>\<^verbatim>\<open>String.prototype.split\<close> on a one-character separator: at least one part.\<close>

fun splitOn :: "char \<Rightarrow> string \<Rightarrow> string list" where
  "splitOn c [] = [[]]"
| "splitOn c (x # xs) =
     (if x = c then [] # splitOn c xs
      else case splitOn c xs of
             w # ws \<Rightarrow> (x # w) # ws
           | [] \<Rightarrow> [[x]])"

text \<open>\<^verbatim>\<open>targetPath.replace(/^\/+|\/+$/g, '').split('/')\<close>\<close>

definition readParts :: "string \<Rightarrow> string list" where
  "readParts targetPath =
     splitOn (CHR ''/'')
       (rev (dropWhile (\<lambda>c. c = CHR ''/'') (rev (dropWhile (\<lambda>c. c = CHR ''/'') targetPath))))"

definition resolveParts :: "store \<Rightarrow> hash \<Rightarrow> string \<Rightarrow> string list \<Rightarrow> error + target" where
  "resolveParts s rootTreeSha targetPath parts =
     walkParts s targetPath \<lparr>sha = rootTreeSha, tmode = None, ttype = TTree\<rparr> [] parts"

definition resolveBlobEntry :: "store \<Rightarrow> hash \<Rightarrow> string \<Rightarrow> error + target" where
  "resolveBlobEntry s rootTreeSha targetPath =
     resolveParts s rootTreeSha targetPath (readParts targetPath)"

section \<open>merge-branch.js: three-way tree merge\<close>

text \<open>
  \<^verbatim>\<open>resolutions\<close> is the object parsed from the optional JSON argument,
  with the file contents as strings under the names: the map \<open>res\<close> holds
  its own properties.  \<^verbatim>\<open>resolutions[p]\<close> is a property lookup: where
  the object has no property of its own under \<open>p\<close>, the lookup goes on to
  \<^verbatim>\<open>Object.prototype\<close> and finds its members there (\<open>Inherited\<close>: a
  function, or the prototype itself), and only then answers
  \<^verbatim>\<open>undefined\<close>.  \<^verbatim>\<open>if (resolutions[p])\<close> tests the value for
  truthiness: a string is truthy when it is not empty, an inherited member
  always.  \<^verbatim>\<open>Buffer.from\<close> accepts the string and throws a
  \<^verbatim>\<open>TypeError\<close> on an inherited member.

  \<^verbatim>\<open>readEntries\<close> builds a \<^verbatim>\<open>Map\<close> from name to entry: \<open>mapGet\<close>
  is \<^verbatim>\<open>Map.get\<close> (a later entry of the same name replaces an earlier
  one), and a \<^verbatim>\<open>Set\<close> iterates in the order of first insertion.

  \<open>mergeLoop\<close> is the loop \<^verbatim>\<open>for (const p of allPaths)\<close>, with the
  names still to visit and the \<^verbatim>\<open>newEntries\<close> collected so far;
  \<open>shaOf es p\<close> is \<^verbatim>\<open>e ? e.oid : null\<close> for \<^verbatim>\<open>e = es.get(p)\<close>.
\<close>

type_synonym resolutions = "string \<rightharpoonup> string"

definition readEntries :: "store \<Rightarrow> hash option \<Rightarrow> error + entry list" where
  "readEntries s treeSha = (case treeSha of None \<Rightarrow> Inr [] | Some h \<Rightarrow> readTree s h)"

definition mapGet :: "entry list \<Rightarrow> string \<Rightarrow> entry option" where
  "mapGet es p = find (\<lambda>e. path e = p) (rev es)"

definition insertionOrder :: "'a list \<Rightarrow> 'a list" where
  "insertionOrder xs = rev (remdups (rev xs))"

definition allPaths :: "entry list \<Rightarrow> entry list \<Rightarrow> entry list \<Rightarrow> string list" where
  "allPaths baseEntries ourEntries theirEntries =
     insertionOrder (map path baseEntries @ map path ourEntries @ map path theirEntries)"

definition shaOf :: "entry list \<Rightarrow> string \<Rightarrow> hash option" where
  "shaOf es p = map_option oid (mapGet es p)"

definition isTree :: "entry option \<Rightarrow> bool" where
  "isTree e = (case e of None \<Rightarrow> False | Some x \<Rightarrow> type x = TTree)"

definition push :: "entry list \<Rightarrow> entry option \<Rightarrow> entry list" where
  "push newEntries e = (case e of None \<Rightarrow> newEntries | Some x \<Rightarrow> newEntries @ [x])"

datatype jsvalue = Undefined | Text string | Inherited

definition objectPrototypeNames :: "string list" where
  "objectPrototypeNames =
     [''constructor'', ''__defineGetter__'', ''__defineSetter__'', ''hasOwnProperty'',
      ''__lookupGetter__'', ''__lookupSetter__'', ''isPrototypeOf'', ''propertyIsEnumerable'',
      ''toString'', ''valueOf'', ''__proto__'', ''toLocaleString'']"

definition getProperty :: "resolutions \<Rightarrow> string \<Rightarrow> jsvalue" where
  "getProperty res p =
     (case res p of
        Some content \<Rightarrow> Text content
      | None \<Rightarrow> if p \<in> set objectPrototypeNames then Inherited else Undefined)"

definition truthy :: "jsvalue \<Rightarrow> bool" where
  "truthy v = (case v of Undefined \<Rightarrow> False | Text c \<Rightarrow> c \<noteq> [] | Inherited \<Rightarrow> True)"

definition bufferFrom :: "jsvalue \<Rightarrow> error + string" where
  "bufferFrom v = (case v of Text c \<Rightarrow> Inr c | _ \<Rightarrow> Inl TypeError)"

fun osize :: "hash option \<Rightarrow> nat" where
  "osize None = 0"
| "osize (Some h) = size h"

definition esize :: "entry list \<Rightarrow> nat" where
  "esize es = size_list (size_tree_entry size) es"

text \<open>Termination: every recursive call descends into children of the trees read.\<close>

lemma size_oid_lt: "e \<in> set es \<Longrightarrow> size (oid e) < esize es"
  unfolding esize_def by (induction es) (auto simp: less_Suc_eq_le, (cases e; simp)+)

lemma mapGet_in: "mapGet es p = Some e \<Longrightarrow> e \<in> set es"
  unfolding mapGet_def by (metis find_Some_iff nth_mem set_rev length_rev)

lemma readEntries_size: "readEntries s treeSha = Inr es \<Longrightarrow> esize es \<le> osize treeSha"
  unfolding readEntries_def readTree_def esize_def
  by (auto split: option.splits if_splits hash.splits)

lemma osize_get: "osize (shaOf es p) \<le> esize es"
  unfolding shaOf_def by (cases "mapGet es p") (auto dest!: mapGet_in size_oid_lt simp: less_imp_le)

lemma osize_get_lt: "isTree (mapGet es p) \<Longrightarrow> osize (shaOf es p) < esize es"
  unfolding shaOf_def by (cases "mapGet es p") (auto dest!: mapGet_in size_oid_lt simp: isTree_def)

function mergeTrees :: "resolutions \<Rightarrow> store \<Rightarrow> hash option \<Rightarrow> hash option \<Rightarrow> hash option \<Rightarrow> store \<times> (error + hash option)"
  and mergeLoop :: "resolutions \<Rightarrow> store \<Rightarrow> entry list \<Rightarrow> entry list \<Rightarrow> entry list \<Rightarrow> string list \<Rightarrow> entry list \<Rightarrow> store \<times> (error + entry list)"
where
  "mergeTrees res s baseTreeSha ourTreeSha theirTreeSha =
     (case readEntries s baseTreeSha of
        Inl e \<Rightarrow> (s, Inl e)
      | Inr baseEntries \<Rightarrow>
     (case readEntries s ourTreeSha of
        Inl e \<Rightarrow> (s, Inl e)
      | Inr ourEntries \<Rightarrow>
     (case readEntries s theirTreeSha of
        Inl e \<Rightarrow> (s, Inl e)
      | Inr theirEntries \<Rightarrow>
     (case mergeLoop res s baseEntries ourEntries theirEntries
             (allPaths baseEntries ourEntries theirEntries) [] of
        (s', Inl e) \<Rightarrow> (s', Inl e)
      | (s', Inr newEntries) \<Rightarrow>
          if newEntries = [] then (s', Inr None)
          else (case writeTree s' newEntries of (s'', h) \<Rightarrow> (s'', Inr (Some h)))))))"
| "mergeLoop res s baseEntries ourEntries theirEntries [] newEntries = (s, Inr newEntries)"
| "mergeLoop res s baseEntries ourEntries theirEntries (p # ps) newEntries =
     (if isTree (mapGet ourEntries p) \<or> isTree (mapGet theirEntries p) then
           (case mergeTrees res s (shaOf baseEntries p) (shaOf ourEntries p) (shaOf theirEntries p) of
              (s', Inl e) \<Rightarrow> (s', Inl e)
            | (s', Inr mergedSubTreeSha) \<Rightarrow>
                mergeLoop res s' baseEntries ourEntries theirEntries ps
                  (case mergedSubTreeSha of
                     None \<Rightarrow> newEntries
                   | Some h \<Rightarrow> newEntries @ [Entry ''040000'' p h TTree]))
         else if shaOf ourEntries p = shaOf theirEntries p then
           mergeLoop res s baseEntries ourEntries theirEntries ps (push newEntries (mapGet ourEntries p))
         else if shaOf ourEntries p = shaOf baseEntries p \<and> shaOf theirEntries p \<noteq> shaOf baseEntries p then
           mergeLoop res s baseEntries ourEntries theirEntries ps (push newEntries (mapGet theirEntries p))
         else if shaOf ourEntries p \<noteq> shaOf baseEntries p \<and> shaOf theirEntries p = shaOf baseEntries p then
           mergeLoop res s baseEntries ourEntries theirEntries ps (push newEntries (mapGet ourEntries p))
         else if truthy (getProperty res p) then
           (case bufferFrom (getProperty res p) of
              Inl e \<Rightarrow> (s, Inl e)
            | Inr content \<Rightarrow>
                (case writeBlob s content of
                   (s', resolvedSha) \<Rightarrow>
                     mergeLoop res s' baseEntries ourEntries theirEntries ps
                       (newEntries @ [Entry ''100644'' p resolvedSha TBlob])))
         else (s, Inl (MergeConflict p)))"
  by pat_completeness auto

termination
  apply (relation "inv_image (less_than <*lex*> less_than)
    (\<lambda>x. case x of
        Inl (res, s, b, ou, t) \<Rightarrow> (osize b + osize ou + osize t + 1, 0)
      | Inr (res, s, be, oe, te, ps, acc) \<Rightarrow> (esize be + esize oe + esize te, length ps + 1))")
  subgoal by (intro wf_inv_image wf_lex_prod wf_less_than)
  subgoal by (auto dest!: readEntries_size)
  subgoal for res s be oe te p ps acc
    using osize_get[of be p] osize_get[of oe p] osize_get[of te p]
          osize_get_lt[of oe p] osize_get_lt[of te p]
    by auto
  by auto


section \<open>Commits, refs and the three command flows\<close>

text \<open>
  Modelled from the spec: a commit is identified by its content (tree, parents,
  message, identity).  The bots' identity is fixed apart from the timestamp,
  which is all the model keeps of it.  The library writes the empty tree as the
  tree of a commit that is given none.
\<close>

datatype commit =
  Commit (message: string) (ctree: hash) (parent: "commit list") (timestamp: nat)

record repo =
  objects :: store
  commits :: "commit set"
  refs :: "string \<rightharpoonup> commit"

text \<open>
  Modelled from the spec: RefStore \<^verbatim>\<open>resolve\<close> and the write of a ref.
  A short name denotes the branch \<^verbatim>\<open>refs/heads/<name>\<close>, as the
  normalisation in merge-branch.js spells out.
\<close>

definition fullRef :: "string \<Rightarrow> string" where
  "fullRef name = (if take 5 name = ''refs/'' then name else ''refs/heads/'' @ name)"

definition resolveRef :: "repo \<Rightarrow> string \<Rightarrow> error + commit" where
  "resolveRef r name =
     (case refs r (fullRef name) of None \<Rightarrow> Inl (RefNotFound name) | Some c \<Rightarrow> Inr c)"

definition writeRef :: "repo \<Rightarrow> string \<Rightarrow> commit \<Rightarrow> repo" where
  "writeRef r name c = r\<lparr>refs := (refs r)(name \<mapsto> c)\<rparr>"

definition readCommit :: "repo \<Rightarrow> commit \<Rightarrow> error + commit" where
  "readCommit r c = (if c \<in> commits r then Inr c else Inl CommitNotFound)"

definition writeCommit :: "repo \<Rightarrow> string \<Rightarrow> hash option \<Rightarrow> commit list \<Rightarrow> nat \<Rightarrow> repo \<times> commit" where
  "writeCommit r msg treeSha parents now =
     (let c = Commit msg (case treeSha of None \<Rightarrow> HTree [] | Some h \<Rightarrow> h) parents now
      in (r\<lparr>commits := insert c (commits r)\<rparr>, c))"

text \<open>\<^verbatim>\<open>str.replace(pat, rep)\<close> with a string pattern: the first occurrence only.\<close>

fun replaceFirst :: "string \<Rightarrow> string \<Rightarrow> string \<Rightarrow> string" where
  "replaceFirst pat rep [] = (if pat = [] then rep else [])"
| "replaceFirst pat rep (c # cs) =
     (if take (length pat) (c # cs) = pat then rep @ drop (length pat) (c # cs)
      else c # replaceFirst pat rep cs)"

text \<open>\<^verbatim>\<open>filePath.replace(/^\/+/, '').split('/')\<close>\<close>

definition pathParts :: "string \<Rightarrow> string list" where
  "pathParts filePath = splitOn (CHR ''/'') (dropWhile (\<lambda>c. c = CHR ''/'') filePath)"

text \<open>\<^verbatim>\<open>refs/heads/${refName.replace('refs/heads/', '')}\<close>\<close>

definition headRef :: "string \<Rightarrow> string" where
  "headRef refName = ''refs/heads/'' @ replaceFirst ''refs/heads/'' [] refName"

text \<open>
  The three flows run against a repository that other writers may change
  while the flow computes.  The parameter \<open>concurrent\<close> is what the other
  writers did between the flow's first read of the ref and its update of the
  ref; \<open>id\<close> is a run alone.  \<open>now\<close> is the clock.

  \<^verbatim>\<open>main\<close> of add-file-deep.js.
\<close>

definition addFileMain ::
  "(repo \<Rightarrow> repo) \<Rightarrow> nat \<Rightarrow> repo \<Rightarrow> string \<Rightarrow> string \<Rightarrow> string \<Rightarrow> repo \<times> (error + commit)" where
  "addFileMain concurrent now r refName filePath fileContent =
     (if refName = [] \<or> filePath = [] \<or> fileContent = [] then (r, Inl UsageError)
      else
        let parentSha = (case resolveRef r refName of Inl _ \<Rightarrow> None | Inr c \<Rightarrow> Some c) in
        case (case parentSha of
                None \<Rightarrow> Inr None
              | Some c \<Rightarrow> (case readCommit r c of Inl e \<Rightarrow> Inl e | Inr cm \<Rightarrow> Inr (Some (ctree cm)))) of
          Inl e \<Rightarrow> (r, Inl e)
        | Inr rootTreeSha \<Rightarrow>
            (case writeBlob (objects r) fileContent of
               (s1, blobSha) \<Rightarrow>
                 (case upsertTree s1 rootTreeSha (pathParts filePath) blobSha of
                    (s2, Inl e) \<Rightarrow> (r\<lparr>objects := s2\<rparr>, Inl e)
                  | (s2, Inr newRootTreeSha) \<Rightarrow>
                      (case writeCommit (r\<lparr>objects := s2\<rparr>) (''Add '' @ filePath)
                              (Some newRootTreeSha)
                              (case parentSha of None \<Rightarrow> [] | Some c \<Rightarrow> [c]) now of
                         (r1, commitSha) \<Rightarrow>
                           let r2 = concurrent r1;
                               currentSha = (case resolveRef r2 refName of
                                               Inl _ \<Rightarrow> None | Inr c \<Rightarrow> Some c)
                           in if currentSha \<noteq> parentSha
                              then (r2, Inl (ConcurrencyError refName))
                              else (writeRef r2 (headRef refName) commitSha, Inr commitSha)))))"

text \<open>\<^verbatim>\<open>main\<close> of remove-file-deep.js.\<close>

definition removeFileMain ::
  "(repo \<Rightarrow> repo) \<Rightarrow> nat \<Rightarrow> repo \<Rightarrow> string \<Rightarrow> string \<Rightarrow> repo \<times> (error + commit)" where
  "removeFileMain concurrent now r refName filePath =
     (if refName = [] \<or> filePath = [] then (r, Inl UsageError)
      else
        case resolveRef r refName of
          Inl e \<Rightarrow> (r, Inl e)
        | Inr parentSha \<Rightarrow>
            (case readCommit r parentSha of
               Inl e \<Rightarrow> (r, Inl e)
             | Inr cm \<Rightarrow>
                 (case removeRoot (objects r) (ctree cm) (pathParts filePath) of
                    (s1, Inl e) \<Rightarrow> (r\<lparr>objects := s1\<rparr>, Inl e)
                  | (s1, Inr newRootTreeSha) \<Rightarrow>
                      (case writeCommit (r\<lparr>objects := s1\<rparr>) (''Remove '' @ filePath)
                              (Some newRootTreeSha) [parentSha] now of
                         (r1, commitSha) \<Rightarrow>
                           let r2 = concurrent r1 in
                           (case resolveRef r2 refName of
                              Inl e \<Rightarrow> (r2, Inl e)
                            | Inr currentSha \<Rightarrow>
                                if currentSha \<noteq> parentSha
                                then (r2, Inl (ConcurrencyError refName))
                                else (writeRef r2 (headRef refName) commitSha, Inr commitSha))))))"

text \<open>
  \<^verbatim>\<open>main\<close> of merge-branch.js.  \<open>findMergeBase\<close> is the library's
  search for the common ancestors of two commits, taken as a parameter.
\<close>

definition mergeMain ::
  "(commit \<Rightarrow> commit \<Rightarrow> commit list) \<Rightarrow> (repo \<Rightarrow> repo) \<Rightarrow> nat \<Rightarrow> resolutions \<Rightarrow>
   repo \<Rightarrow> string \<Rightarrow> string \<Rightarrow> repo \<times> (error + commit)" where
  "mergeMain findMergeBase concurrent now res r sourceBranch destBranch =
     (if sourceBranch = [] \<or> destBranch = [] then (r, Inl UsageError)
      else
        let sourceRef = fullRef sourceBranch; destRef = fullRef destBranch in
        case resolveRef r sourceRef of
          Inl e \<Rightarrow> (r, Inl e)
        | Inr sourceSha \<Rightarrow>
        (case resolveRef r destRef of
          Inl e \<Rightarrow> (r, Inl e)
        | Inr destSha \<Rightarrow>
        (case findMergeBase destSha sourceSha of
          [] \<Rightarrow> (r, Inl NoMergeBase)
        | baseSha # _ \<Rightarrow>
        (case readCommit r baseSha of
          Inl e \<Rightarrow> (r, Inl e)
        | Inr baseCommit \<Rightarrow>
        (case readCommit r sourceSha of
          Inl e \<Rightarrow> (r, Inl e)
        | Inr sourceCommit \<Rightarrow>
        (case readCommit r destSha of
          Inl e \<Rightarrow> (r, Inl e)
        | Inr destCommit \<Rightarrow>
        (case mergeTrees res (objects r) (Some (ctree baseCommit)) (Some (ctree destCommit))
                (Some (ctree sourceCommit)) of
           (s1, Inl e) \<Rightarrow> (r\<lparr>objects := s1\<rparr>, Inl e)
         | (s1, Inr newTreeSha) \<Rightarrow>
             (case writeCommit (r\<lparr>objects := s1\<rparr>)
                     (''Merge branch '' @ [CHR 0x27] @ sourceBranch @ [CHR 0x27] @ '' into ''
                        @ [CHR 0x27] @ destBranch @ [CHR 0x27])
                     newTreeSha [destSha, sourceSha] now of
                (r1, mergeCommitSha) \<Rightarrow>
                  (writeRef (concurrent r1) destRef mergeCommitSha, Inr mergeCommitSha)))))))))"

section \<open>The body of the merge loop\<close>

text \<open>
  One turn of the loop of \<open>mergeTrees\<close> as a function of the name: what
  the turn adds to \<^verbatim>\<open>newEntries\<close>, if anything, and the store it
  leaves, or the error it throws.  \<open>contentRule\<close> is the cascade of the
  three comparisons of object identifiers, \<open>None\<close> standing for its last
  branch, the conflict.
\<close>

definition contentRule ::
  "hash option \<Rightarrow> hash option \<Rightarrow> hash option \<Rightarrow> entry option \<Rightarrow> entry option \<Rightarrow> entry option option" where
  "contentRule baseSha ourSha theirSha ours theirs =
     (if ourSha = theirSha then Some ours
      else if ourSha = baseSha \<and> theirSha \<noteq> baseSha then Some theirs
      else if ourSha \<noteq> baseSha \<and> theirSha = baseSha then Some ours
      else None)"

definition loopBody ::
  "resolutions \<Rightarrow> store \<Rightarrow> entry list \<Rightarrow> entry list \<Rightarrow> entry list \<Rightarrow> string \<Rightarrow> store \<times> (error + entry option)" where
  "loopBody res s baseEntries ourEntries theirEntries p =
     (if isTree (mapGet ourEntries p) \<or> isTree (mapGet theirEntries p) then
        (case mergeTrees res s (shaOf baseEntries p) (shaOf ourEntries p) (shaOf theirEntries p) of
           (s', Inl e) \<Rightarrow> (s', Inl e)
         | (s', Inr sub) \<Rightarrow> (s', Inr (map_option (\<lambda>h. Entry ''040000'' p h TTree) sub)))
      else
        (case contentRule (shaOf baseEntries p) (shaOf ourEntries p) (shaOf theirEntries p)
                (mapGet ourEntries p) (mapGet theirEntries p) of
           Some kept \<Rightarrow> (s, Inr kept)
         | None \<Rightarrow>
             (case getProperty res p of
                Text (c # cs) \<Rightarrow>
                  (insert (HBlob (c # cs)) s, Inr (Some (Entry ''100644'' p (HBlob (c # cs)) TBlob)))
              | Inherited \<Rightarrow> (s, Inl TypeError)
              | _ \<Rightarrow> (s, Inl (MergeConflict p)))))"


section \<open>The merge rule in the words of the specification\<close>

text \<open>
  Section 4.3 of the specification speaks of the entry that a tree has under
  a name, the names of a tree being unique: \<open>entryAt\<close> is that entry,
  \<open>hashAt\<close> its object and \<open>isDirAt\<close> whether it is a directory.
\<close>

definition entryAt :: "hash option \<Rightarrow> string \<Rightarrow> entry option" where
  "entryAt tree name = find (\<lambda>e. path e = name) (case tree of Some (HTree es) \<Rightarrow> es | _ \<Rightarrow> [])"



section \<open>Well-formed trees\<close>

text \<open>
  The invariants of section 3 of the specification for the trees of a store:
  every object reachable from the tree is present, the entries are in the
  canonical order with unique names, an entry is a directory exactly when its
  object is a tree (then of mode 040000), and no directory below the root is
  empty.
\<close>

definition entryOk :: "entry \<Rightarrow> bool" where
  "entryOk e =
     (case oid e of
        HTree sub \<Rightarrow> type e = TTree \<and> mode e = ''040000'' \<and> sub \<noteq> []
      | HBlob _ \<Rightarrow> type e = TBlob)"

function validTree :: "store \<Rightarrow> hash \<Rightarrow> bool" where
  "validTree s (HBlob c) = (HBlob c \<in> s)"
| "validTree s (HTree es) =
     (HTree es \<in> s \<and> sorted (map path es) \<and> distinct (map path es) \<and>
      list_all (\<lambda>e. entryOk e \<and> validTree s (oid e)) es)"
  by pat_completeness auto
termination
  by (relation "measure (\<lambda>(s, h). size h)") (auto dest!: size_oid_lt simp: esize_def)

text \<open>
  \<open>kindsAgree b t\<close>: wherever both trees have a name, both have a directory
  or both have a file there.  \<open>modesAgree b t\<close>: wherever both have the
  same object under a name, they give it the same mode.
\<close>

function kindsAgree :: "hash \<Rightarrow> hash \<Rightarrow> bool" where
  "kindsAgree (HTree bs) (HTree ts) =
     list_all (\<lambda>e. case find (\<lambda>x. path x = path e) ts of
                      None \<Rightarrow> True
                    | Some x \<Rightarrow> type e = type x \<and> kindsAgree (oid e) (oid x)) bs"
| "kindsAgree (HBlob c) t = True"
| "kindsAgree (HTree bs) (HBlob c) = True"
  by pat_completeness auto
termination
  by (relation "measure (\<lambda>(b, t). size b)") (auto dest!: size_oid_lt simp: esize_def)

function modesAgree :: "hash \<Rightarrow> hash \<Rightarrow> bool" where
  "modesAgree (HTree bs) (HTree ts) =
     list_all (\<lambda>e. case find (\<lambda>x. path x = path e) ts of
                      None \<Rightarrow> True
                    | Some x \<Rightarrow> (oid e = oid x \<longrightarrow> mode e = mode x) \<and> modesAgree (oid e) (oid x)) bs"
| "modesAgree (HBlob c) t = True"
| "modesAgree (HTree bs) (HBlob c) = True"
  by pat_completeness auto
termination
  by (relation "measure (\<lambda>(b, t). size b)") (auto dest!: size_oid_lt simp: esize_def)

text \<open>The entries of \<open>xs\<close> picked in the order of the names \<open>ps\<close>.\<close>

fun pick :: "entry list \<Rightarrow> string list \<Rightarrow> entry list" where
  "pick xs [] = []"
| "pick xs (p # ps) = (case mapGet xs p of None \<Rightarrow> pick xs ps | Some e \<Rightarrow> e # pick xs ps)"

text \<open>An entry that the merge made itself: a directory entry or a resolved conflict.\<close>

definition freshEntry :: "resolutions \<Rightarrow> entry \<Rightarrow> bool" where
  "freshEntry res e \<longleftrightarrow>
     (type e = TTree \<and> mode e = ''040000'') \<or>
     (type e = TBlob \<and> mode e = ''100644'' \<and> res (path e) \<noteq> None \<and> the (res (path e)) \<noteq> [] \<and>
      oid e = HBlob (the (res (path e))))"

section \<open>Example repositories\<close>

text \<open>\<open>treeEntries\<close>: the entries of a tree identifier, none for an absent tree.\<close>

definition treeEntries :: "hash option \<Rightarrow> entry list" where
  "treeEntries h = (case h of Some (HTree es) \<Rightarrow> es | _ \<Rightarrow> [])"

definition exReadme :: entry where
  "exReadme = Entry ''100644'' ''README.md'' (HBlob ''Hello'') TBlob"

definition exSrc :: hash where
  "exSrc = HTree [Entry ''100644'' ''a.txt'' (HBlob ''1'') TBlob]"

definition exBase :: hash where
  "exBase = HTree [exReadme, Entry ''040000'' ''src'' exSrc TTree]"

definition exSrc2 :: hash where
  "exSrc2 = HTree [Entry ''100644'' ''a.txt'' (HBlob ''1'') TBlob,
                   Entry ''100755'' ''run.sh'' (HBlob ''go'') TBlob]"

definition exDocs :: hash where
  "exDocs = HTree [Entry ''100644'' ''x.md'' (HBlob ''x'') TBlob]"

definition exTheirs :: hash where
  "exTheirs = HTree [Entry ''100644'' ''README.md'' (HBlob ''Hello!'') TBlob,
                     Entry ''040000'' ''docs'' exDocs TTree,
                     Entry ''040000'' ''src'' exSrc2 TTree]"

definition exStore :: store where
  "exStore = {exBase, exTheirs, exSrc, exSrc2, exDocs,
              HBlob ''Hello'', HBlob ''Hello!'', HBlob ''1'', HBlob ''go'', HBlob ''x''}"

definition exExec :: hash where
  "exExec = HTree [Entry ''100755'' ''run.sh'' (HBlob ''go'') TBlob]"

definition exOurs :: hash where
  "exOurs = HTree [Entry ''100755'' ''README.md'' (HBlob ''Hi'') TBlob,
                   Entry ''040000'' ''src'' exSrc TTree]"

definition exUpserted :: hash where
  "exUpserted = HTree [Entry ''100644'' ''run.sh'' (HBlob ''new'') TBlob]"

definition exResolved :: entry where
  "exResolved = Entry ''100644'' ''README.md'' (HBlob ''Both'') TBlob"

definition exStoreU :: store where
  "exStoreU = {exExec, HBlob ''go'', HBlob ''new''}"

definition exStoreM :: store where
  "exStoreM = insert exOurs (insert (HBlob ''Hi'') exStore)"

definition exMerged :: hash where
  "exMerged = HTree [Entry ''100644'' ''README.md'' (HBlob ''Both'') TBlob,
                     Entry ''040000'' ''docs'' exDocs TTree,
                     Entry ''040000'' ''src'' exSrc2 TTree]"

definition exPlain :: hash where
  "exPlain = HTree [Entry ''100644'' ''run.sh'' (HBlob ''go'') TBlob]"

definition exAsDir :: hash where
  "exAsDir = HTree [Entry ''040000'' ''run.sh'' exDocs TTree]"

definition exDirF :: "string \<Rightarrow> hash" where
  "exDirF content = HTree [Entry ''040000'' ''d'' (HTree [Entry ''100644'' ''f'' (HBlob content) TBlob]) TTree]"

definition exStoreF :: store where
  "exStoreF = {exDirF ''0'', exDirF ''1'', exDirF ''2'',
               HTree [Entry ''100644'' ''f'' (HBlob ''0'') TBlob],
               HTree [Entry ''100644'' ''f'' (HBlob ''1'') TBlob],
               HTree [Entry ''100644'' ''f'' (HBlob ''2'') TBlob],
               HBlob ''0'', HBlob ''1'', HBlob ''2''}"

text \<open>A file at the root and an upsert below it.\<close>

definition exFileA :: hash where
  "exFileA = HTree [Entry ''100644'' ''a'' (HBlob ''x'') TBlob]"

definition exC0 :: commit where
  "exC0 = Commit ''Add README.md'' exBase [] 1"

definition exCS :: commit where
  "exCS = Commit ''Add docs/x.md'' exTheirs [exC0] 2"

definition exCX :: commit where
  "exCX = Commit ''Add run.sh'' exExec [exC0] 3"

definition exRepo :: repo where
  "exRepo = \<lparr>objects = exStore, commits = {exC0, exCS},
             refs = [''refs/heads/main'' \<mapsto> exC0, ''refs/heads/feature'' \<mapsto> exCS]\<rparr>"

text \<open>Another writer moves \<^verbatim>\<open>main\<close> to its own commit while the flow computes.\<close>

definition exPush :: "repo \<Rightarrow> repo" where
  "exPush r = r\<lparr>objects := insert exExec (objects r), commits := insert exCX (commits r),
                refs := (refs r)(''refs/heads/main'' \<mapsto> exCX)\<rparr>"

definition exMergeCommit :: commit where
  "exMergeCommit = Commit (''Merge branch '' @ [CHR 0x27] @ ''feature'' @ [CHR 0x27] @ '' into '' @ [CHR 0x27] @ ''main'' @ [CHR 0x27]) exTheirs [exC0, exCS] 4"

definition exSrcAB :: hash where
  "exSrcAB = HTree [Entry ''100644'' ''a.txt'' (HBlob ''1'') TBlob,
                    Entry ''100644'' ''b.txt'' (HBlob ''2'') TBlob]"

definition exAdded :: hash where
  "exAdded = HTree [exReadme, Entry ''040000'' ''src'' exSrcAB TTree]"

definition exWithDocs :: hash where
  "exWithDocs = HTree [exReadme, Entry ''040000'' ''docs'' exDocs TTree,
                       Entry ''040000'' ''src'' exSrc TTree]"

definition exDirA :: "string \<Rightarrow> string \<Rightarrow> hash" where
  "exDirA cx cy = HTree [Entry ''100644'' ''x'' (HBlob cx) TBlob, Entry ''100644'' ''y'' (HBlob cy) TBlob]"

definition exTreeC :: "string \<Rightarrow> string \<Rightarrow> string \<Rightarrow> hash" where
  "exTreeC cx cy cf =
     HTree [Entry ''040000'' ''a'' (exDirA cx cy) TTree,
            Entry ''040000'' ''d'' (HTree [Entry ''100644'' ''f'' (HBlob cf) TBlob]) TTree]"

definition exStoreC :: store where
  "exStoreC = {exTreeC ''0'' ''0'' ''0'', exTreeC ''1'' ''0'' ''1'', exTreeC ''0'' ''2'' ''2'',
               exDirA ''0'' ''0'', exDirA ''1'' ''0'', exDirA ''0'' ''2'',
               HTree [Entry ''100644'' ''f'' (HBlob ''0'') TBlob],
               HTree [Entry ''100644'' ''f'' (HBlob ''1'') TBlob],
               HTree [Entry ''100644'' ''f'' (HBlob ''2'') TBlob],
               HBlob ''0'', HBlob ''1'', HBlob ''2''}"

definition exCB :: commit where "exCB = Commit ''base'' (exDirF ''0'') [] 1"
definition exCO :: commit where "exCO = Commit ''ours'' (exDirF ''1'') [exCB] 2"
definition exCT :: commit where "exCT = Commit ''theirs'' (exDirF ''2'') [exCB] 3"

definition exRepoF :: repo where
  "exRepoF = \<lparr>objects = exStoreF, commits = {exCB, exCO, exCT},
              refs = [''refs/heads/main'' \<mapsto> exCO, ''refs/heads/feature'' \<mapsto> exCT]\<rparr>"

definition exF :: "string \<Rightarrow> entry" where
  "exF content = Entry ''100644'' ''f'' (HBlob content) TBlob"

definition exD :: "string \<Rightarrow> entry" where
  "exD content = Entry ''040000'' ''d'' (HTree [exF content]) TTree"

text \<open>
  A conflict at a file named as a member that every object inherits, and a
  conflict between a file and a directory.
\<close>

definition exCtor :: "string \<Rightarrow> hash" where
  "exCtor content = HTree [Entry ''100644'' ''constructor'' (HBlob content) TBlob]"

definition exStoreK :: store where
  "exStoreK = {exCtor ''0'', exCtor ''1'', exCtor ''2'', HBlob ''0'', HBlob ''1'', HBlob ''2''}"

definition exStoreD :: store where
  "exStoreD = {HTree [exF ''0''], HTree [exF ''1''], HTree [Entry ''040000'' ''f'' exDocs TTree], exDocs,
               HBlob ''0'', HBlob ''1'', HBlob ''x''}"

lemmas rule_defs = loopBody_def contentRule_def isTree_def shaOf_def

declare mergeTrees.simps [simp del]

section \<open>Lists, the store and the walk\<close>

lemma find_as_filter: "find P xs = (case filter P xs of [] \<Rightarrow> None | x # _ \<Rightarrow> Some x)"
  by (induction xs) auto

lemma find_sort_key: "find (\<lambda>e. f e = k) (sort_key f xs) = find (\<lambda>e. f e = k) xs"
  by (simp add: find_as_filter[of _ "sort_key f xs"] find_as_filter[of _ xs] sort_key_stable)

lemma readTree_mono: "readTree s h = Inr es \<Longrightarrow> s \<subseteq> s' \<Longrightarrow> readTree s' h = Inr es"
  by (auto simp: readTree_def split: if_splits hash.splits)

lemma readTree_Inr: "readTree s h = Inr es \<longleftrightarrow> h \<in> s \<and> h = HTree es"
  by (auto simp: readTree_def split: if_splits hash.splits)

lemma writeTree_eq: "writeTree s es = (insert (HTree (sort_key path es)) s, HTree (sort_key path es))"
  by (simp add: writeTree_def Let_def)

lemma walkParts_mono:
  "walkParts s tp cur prev parts = Inr r \<Longrightarrow> s \<subseteq> s' \<Longrightarrow> walkParts s' tp cur prev parts = Inr r"
proof (induction parts arbitrary: cur prev)
  case Nil
  then show ?case by simp
next
  case (Cons part rest)
  then show ?case
    by (auto split: if_splits sum.splits option.splits dest: readTree_mono)
qed

lemma upsertTree_store_mono: "upsertTree s T parts X = (s', r) \<Longrightarrow> s \<subseteq> s'"
proof (induction parts arbitrary: s T s' r)
  case Nil
  then show ?case by simp
next
  case (Cons c rest)
  show ?case
  proof (cases "rest = []")
    case True
    with Cons.prems show ?thesis
      by (auto simp: writeTree_eq Let_def split: sum.splits)
  next
    case False
    with Cons.prems Cons.IH show ?thesis
      by (fastforce simp: writeTree_eq Let_def split: sum.splits prod.splits)
  qed
qed

lemma upsertTree_readback:
  "upsertTree s T parts X = (s', Inr h) \<Longrightarrow>
   walkParts s' tp \<lparr>sha = h, tmode = m0, ttype = TTree\<rparr> prev parts
     = Inr \<lparr>sha = X, tmode = Some ''100644'', ttype = TBlob\<rparr>"
proof (induction parts arbitrary: s T s' h m0 prev)
  case Nil
  then show ?case by simp
next
  case (Cons c rest)
  from Cons.prems obtain tree0 where
    rd: "(case T of None \<Rightarrow> Inr [] | Some x \<Rightarrow> readTree s x) = Inr tree0"
    by (auto split: sum.splits)
  let ?entries = "filter (\<lambda>e. path e \<noteq> c) tree0"
  show ?case
  proof (cases "rest = []")
    case True
    with Cons.prems rd have h: "h = HTree (sort_key path (?entries @ [Entry ''100644'' c X TBlob]))"
      and s': "s' = insert h s"
      by (auto simp: writeTree_eq Let_def)
    have "find (\<lambda>e. path e = c) (?entries @ [Entry ''100644'' c X TBlob]) = Some (Entry ''100644'' c X TBlob)"
      by (induction tree0) auto
    then show ?thesis using True h s'
      by (simp add: readTree_def find_sort_key)
  next
    case False
    from Cons.prems rd False obtain s1 sub where
      rec: "upsertTree s (map_option oid (find (\<lambda>e. path e = c) tree0)) rest X = (s1, Inr sub)"
      and h: "h = HTree (sort_key path (?entries @ [Entry ''040000'' c sub TTree]))"
      and s': "s' = insert h s1"
      by (auto simp: writeTree_eq Let_def split: sum.splits prod.splits)
    have f: "find (\<lambda>e. path e = c) (?entries @ [Entry ''040000'' c sub TTree]) = Some (Entry ''040000'' c sub TTree)"
      by (induction tree0) auto
    have "walkParts s1 tp \<lparr>sha = sub, tmode = Some ''040000'', ttype = TTree\<rparr> c rest
            = Inr \<lparr>sha = X, tmode = Some ''100644'', ttype = TBlob\<rparr>"
      by (rule Cons.IH[OF rec])
    then have "walkParts s' tp \<lparr>sha = sub, tmode = Some ''040000'', ttype = TTree\<rparr> c rest
            = Inr \<lparr>sha = X, tmode = Some ''100644'', ttype = TBlob\<rparr>"
      by (rule walkParts_mono) (use s' in auto)
    then show ?thesis using h s' f
      by (simp add: readTree_def find_sort_key)
  qed
qed

section \<open>The merge loop\<close>

lemma set_push: "set (push acc eo) \<subseteq> set acc \<union> set_option eo"
  by (auto simp: push_def split: option.splits)

lemma writeBlob_eq: "writeBlob s c = (insert (HBlob c) s, HBlob c)"
  by (simp add: writeBlob_def Let_def)

lemma mergeLoop_step:
  "mergeLoop res s be oe te (p # ps) acc =
     (case loopBody res s be oe te p of
        (s', Inl e) \<Rightarrow> (s', Inl e)
      | (s', Inr None) \<Rightarrow> mergeLoop res s' be oe te ps acc
      | (s', Inr (Some kept)) \<Rightarrow> mergeLoop res s' be oe te ps (acc @ [kept]))"
proof (cases "isTree (mapGet oe p) \<or> isTree (mapGet te p)")
  case True
  then show ?thesis
    by (auto simp: loopBody_def split: prod.splits sum.splits option.splits)
next
  case False
  show ?thesis
  proof (cases "getProperty res p")
    case Undefined
    with False show ?thesis
      by (auto simp: loopBody_def contentRule_def push_def truthy_def split: option.splits)
  next
    case (Text c)
    with False show ?thesis
      by (cases c) (auto simp: loopBody_def contentRule_def push_def truthy_def bufferFrom_def
                      writeBlob_eq split: option.splits)
  next
    case Inherited
    with False show ?thesis
      by (auto simp: loopBody_def contentRule_def push_def truthy_def bufferFrom_def
            split: option.splits)
  qed
qed

lemma getProperty_Text: "getProperty res p = Text c \<longleftrightarrow> res p = Some c"
  by (auto simp: getProperty_def split: option.splits)

lemma loopBody_origin:
  assumes "loopBody res s be oe te p = (s', Inr (Some kept))"
  shows "kept \<in> set oe \<or> kept \<in> set te \<or> freshEntry res kept"
proof (cases "isTree (mapGet oe p) \<or> isTree (mapGet te p)")
  case True
  with assms show ?thesis
    by (auto simp: loopBody_def freshEntry_def split: prod.splits sum.splits)
next
  case False
  show ?thesis
  proof (cases "contentRule (shaOf be p) (shaOf oe p) (shaOf te p) (mapGet oe p) (mapGet te p)")
    case (Some eo)
    with False assms have "eo = Some kept" "eo = mapGet oe p \<or> eo = mapGet te p"
      by (auto simp: loopBody_def contentRule_def split: if_splits)
    then show ?thesis by (metis mapGet_in)
  next
    case None
    with False assms obtain c where "getProperty res p = Text c" "kept = Entry ''100644'' p (HBlob c) TBlob"
      "c \<noteq> []"
      by (auto simp: loopBody_def split: jsvalue.splits list.splits)
    then show ?thesis by (simp add: freshEntry_def getProperty_Text)
  qed
qed

lemma mergeLoop_origin:
  "mergeLoop res s be oe te ps acc = (s', Inr out) \<Longrightarrow> e \<in> set out \<Longrightarrow>
   e \<in> set acc \<or> e \<in> set oe \<or> e \<in> set te \<or> freshEntry res e"
proof (induction ps arbitrary: s acc)
  case Nil
  then show ?case by simp
next
  case (Cons p ps)
  obtain sa r where body: "loopBody res s be oe te p = (sa, r)"
    by (cases "loopBody res s be oe te p")
  show ?case
  proof (cases r)
    case (Inl err)
    with Cons.prems(1) body show ?thesis by (simp add: mergeLoop_step del: mergeLoop.simps)
  next
    case (Inr eo)
    show ?thesis
    proof (cases eo)
      case None
      with Cons.prems(1) body Inr have "mergeLoop res sa be oe te ps acc = (s', Inr out)"
        by (simp add: mergeLoop_step del: mergeLoop.simps)
      from Cons.IH[OF this Cons.prems(2)] show ?thesis .
    next
      case (Some kept)
      with Cons.prems(1) body Inr have "mergeLoop res sa be oe te ps (acc @ [kept]) = (s', Inr out)"
        by (simp add: mergeLoop_step del: mergeLoop.simps)
      from Cons.IH[OF this Cons.prems(2)] loopBody_origin[of res s be oe te p sa kept] body Inr Some
      show ?thesis by auto
    qed
  qed
qed

lemma mergeLoop_pick:
  "(\<And>p. p \<in> set ps \<Longrightarrow> loopBody res s be oe te p = (s, Inr (mapGet xs p))) \<Longrightarrow>
   mergeLoop res s be oe te ps acc = (s, Inr (acc @ pick xs ps))"
proof (induction ps arbitrary: acc)
  case Nil
  show ?case by simp
next
  case (Cons p ps)
  have step: "loopBody res s be oe te p = (s, Inr (mapGet xs p))"
    by (rule Cons.prems) simp
  have rest: "\<And>acc'. mergeLoop res s be oe te ps acc' = (s, Inr (acc' @ pick xs ps))"
    by (rule Cons.IH) (simp add: Cons.prems)
  show ?case
    unfolding mergeLoop_step step
    by (cases "mapGet xs p") (simp_all add: rest)
qed

lemma mapGet_path: "mapGet xs p = Some e \<Longrightarrow> path e = p"
  unfolding mapGet_def by (auto simp: find_Some_iff)

lemma mapGet_None: "mapGet xs p = None \<longleftrightarrow> p \<notin> path ` set xs"
  unfolding mapGet_def by (auto simp: find_None_iff)

lemma mapGet_distinct: "distinct (map path xs) \<Longrightarrow> e \<in> set xs \<Longrightarrow> mapGet xs (path e) = Some e"
proof -
  assume d: "distinct (map path xs)" and e: "e \<in> set xs"
  obtain x where x: "mapGet xs (path e) = Some x"
    using e by (cases "mapGet xs (path e)") (auto simp: mapGet_None)
  then have "x \<in> set xs" "path x = path e"
    by (auto dest: mapGet_in mapGet_path)
  with d e have "x = e"
    by (meson distinct_map inj_onD)
  with x show ?thesis by simp
qed

lemma find_distinct: "distinct (map path xs) \<Longrightarrow> e \<in> set xs \<Longrightarrow> find (\<lambda>x. path x = path e) xs = Some e"
proof (induction xs)
  case Nil
  then show ?case by simp
next
  case (Cons a xs)
  then show ?case by (auto simp: image_iff)
qed

lemma mapGet_find: "distinct (map path xs) \<Longrightarrow> mapGet xs p = find (\<lambda>x. path x = p) xs"
proof (cases "mapGet xs p")
  case None
  then have "find (\<lambda>x. path x = p) xs = None"
    by (auto simp: mapGet_None find_None_iff)
  with None show ?thesis by simp
next
  case (Some e)
  assume d: "distinct (map path xs)"
  from Some have "e \<in> set xs" "path e = p"
    by (auto dest: mapGet_in mapGet_path)
  with find_distinct[OF d, of e] Some show ?thesis by simp
qed

lemma set_pick: "set (pick xs ps) = {e. \<exists>p \<in> set ps. mapGet xs p = Some e}"
  by (induction ps) (auto split: option.splits)

lemma map_path_pick: "map path (pick xs ps) = filter (\<lambda>p. p \<in> path ` set xs) ps"
proof (induction ps)
  case Nil
  show ?case by simp
next
  case (Cons p ps)
  then show ?case
    by (cases "mapGet xs p") (auto simp: mapGet_None[symmetric] dest: mapGet_path)
qed

lemma sort_pick:
  assumes "distinct (map path xs)" "sorted (map path xs)" "distinct ps" "path ` set xs \<subseteq> set ps"
  shows "sort_key path (pick xs ps) = xs"
proof -
  have dpaths: "distinct (map path (pick xs ps))"
    unfolding map_path_pick using assms(3) by simp
  then have d1: "distinct (pick xs ps)" and inj: "inj_on path (set (pick xs ps))"
    by (simp_all add: distinct_map)
  have d2: "distinct xs"
    using assms(1) by (simp add: distinct_map)
  have "set (pick xs ps) = set xs"
  proof
    show "set (pick xs ps) \<subseteq> set xs"
      by (auto simp: set_pick dest: mapGet_in)
    show "set xs \<subseteq> set (pick xs ps)"
    proof
      fix e assume e: "e \<in> set xs"
      then have "path e \<in> set ps" using assms(4) by auto
      moreover have "mapGet xs (path e) = Some e"
        by (rule mapGet_distinct[OF assms(1) e])
      ultimately show "e \<in> set (pick xs ps)"
        by (auto simp: set_pick)
    qed
  qed
  with d1 d2 have "mset (pick xs ps) = mset xs"
    by (simp add: set_eq_iff_mset_eq_distinct)
  then show ?thesis
    using inj assms(2) by (rule sort_key_inj_key_eq)
qed

lemma insertionOrder_props: "distinct (insertionOrder xs)" "set (insertionOrder xs) = set xs"
  by (simp_all add: insertionOrder_def)

lemma allPaths_props:
  "distinct (allPaths be oe te)"
  "set (allPaths be oe te) = path ` set be \<union> path ` set oe \<union> path ` set te"
  by (auto simp: allPaths_def insertionOrder_props)

lemma pick_Nil: "pick [] ps = []"
  by (induction ps) (simp_all add: mapGet_def)

lemma pick_Nil_iff:
  assumes "distinct (map path xs)" "sorted (map path xs)" "distinct ps" "path ` set xs \<subseteq> set ps"
  shows "pick xs ps = [] \<longleftrightarrow> xs = []"
  using sort_pick[OF assms] by (cases xs) (auto simp: pick_Nil)

lemma mergeTrees_by_pick:
  assumes reads: "readEntries s b = Inr be" "readEntries s ou = Inr oe" "readEntries s t = Inr te"
    and step: "\<And>p. p \<in> set (allPaths be oe te) \<Longrightarrow>
                 loopBody res s be oe te p = (s, Inr (mapGet xs p))"
    and xs: "distinct (map path xs)" "sorted (map path xs)"
            "path ` set xs \<subseteq> set (allPaths be oe te)"
  shows "mergeTrees res s b ou t =
           (if xs = [] then (s, Inr None) else (insert (HTree xs) s, Inr (Some (HTree xs))))"
proof -
  let ?ps = "allPaths be oe te"
  have loop: "mergeLoop res s be oe te ?ps [] = (s, Inr ([] @ pick xs ?ps))"
    by (rule mergeLoop_pick) (rule step)
  have srt: "sort_key path (pick xs ?ps) = xs"
    by (rule sort_pick[OF xs(1,2) allPaths_props(1) xs(3)])
  have nil: "pick xs ?ps = [] \<longleftrightarrow> xs = []"
    by (rule pick_Nil_iff[OF xs(1,2) allPaths_props(1) xs(3)])
  show ?thesis
    unfolding mergeTrees.simps[of res s b ou t]
    using loop by (simp add: reads srt nil writeTree_eq)
qed

lemma validTree_entry:
  "validTree s (HTree es) \<Longrightarrow> e \<in> set es \<Longrightarrow> entryOk e \<and> validTree s (oid e)"
  by (auto simp: list_all_iff)

lemma entryOk_tree:
  "entryOk e \<Longrightarrow> type e = TTree \<Longrightarrow> \<exists>sub. oid e = HTree sub \<and> sub \<noteq> [] \<and> mode e = ''040000''"
  by (auto simp: entryOk_def split: hash.splits)

lemma entryOk_blob: "entryOk e \<Longrightarrow> type e = TBlob \<Longrightarrow> \<exists>c. oid e = HBlob c"
  by (auto simp: entryOk_def split: hash.splits)

lemma readEntries_valid: "validTree s (HTree es) \<Longrightarrow> readEntries s (Some (HTree es)) = Inr es"
  by (simp add: readEntries_def readTree_def)

lemma readEntries_None: "readEntries s None = Inr []"
  by (simp add: readEntries_def)

lemma oid_in_set: "oid e \<in> set_tree_entry e"
  by (cases e) simp

lemma mapGet_Nil: "mapGet [] p = None"
  by (simp add: mapGet_def)

lemma entry_eq_tree:
  "path e = p \<Longrightarrow> type e = TTree \<Longrightarrow> mode e = ''040000'' \<Longrightarrow> oid e = h \<Longrightarrow>
   Entry ''040000'' p h TTree = e"
  by (cases e) simp

text \<open>A directory that only the base and one side have, unchanged, disappears.\<close>

lemma merge_gone_theirs:
  "validTree s b \<Longrightarrow> b = HTree bs \<Longrightarrow>
   mergeTrees res s (Some (HTree bs)) (Some (HTree bs)) None = (s, Inr None)"
proof (induction b arbitrary: bs)
  case (HBlob c)
  then show ?case by simp
next
  case (HTree es)
  then have valid: "validTree s (HTree bs)" by simp
  from HTree.prems have es: "es = bs" by simp
  have step: "loopBody res s bs bs [] p = (s, Inr (mapGet [] p))" for p
  proof (cases "mapGet bs p")
    case None
    then show ?thesis
      by (simp add: loopBody_def contentRule_def isTree_def shaOf_def mapGet_Nil)
  next
    case (Some e)
    then have e: "e \<in> set bs" by (rule mapGet_in)
    have ok: "entryOk e" "validTree s (oid e)"
      using validTree_entry[OF valid e] by simp_all
    show ?thesis
    proof (cases "type e")
      case TTree
      with ok obtain sub where sub: "oid e = HTree sub" by (auto dest: entryOk_tree)
      have "mergeTrees res s (Some (HTree sub)) (Some (HTree sub)) None = (s, Inr None)"
        by (rule HTree.IH[OF _ oid_in_set ok(2) sub]) (use e es in simp)
      with Some TTree sub show ?thesis
        by (simp add: loopBody_def isTree_def shaOf_def mapGet_Nil)
    next
      case TBlob
      with Some show ?thesis
        by (simp add: loopBody_def contentRule_def isTree_def shaOf_def mapGet_Nil)
    qed
  qed
  have "mergeTrees res s (Some (HTree bs)) (Some (HTree bs)) None =
          (if ([]::entry list) = [] then (s, Inr None) else (insert (HTree []) s, Inr (Some (HTree []))))"
    by (rule mergeTrees_by_pick[where be=bs and oe=bs and te="[]"])
       (simp_all add: readEntries_valid[OF valid] readEntries_None step)
  then show ?case by simp
qed

lemma merge_gone_ours:
  "validTree s b \<Longrightarrow> b = HTree bs \<Longrightarrow>
   mergeTrees res s (Some (HTree bs)) None (Some (HTree bs)) = (s, Inr None)"
proof (induction b arbitrary: bs)
  case (HBlob c)
  then show ?case by simp
next
  case (HTree es)
  then have valid: "validTree s (HTree bs)" by simp
  from HTree.prems have es: "es = bs" by simp
  have step: "loopBody res s bs [] bs p = (s, Inr (mapGet [] p))" for p
  proof (cases "mapGet bs p")
    case None
    then show ?thesis
      by (simp add: loopBody_def contentRule_def isTree_def shaOf_def mapGet_Nil)
  next
    case (Some e)
    then have e: "e \<in> set bs" by (rule mapGet_in)
    have ok: "entryOk e" "validTree s (oid e)"
      using validTree_entry[OF valid e] by simp_all
    show ?thesis
    proof (cases "type e")
      case TTree
      with ok obtain sub where sub: "oid e = HTree sub" by (auto dest: entryOk_tree)
      have "mergeTrees res s (Some (HTree sub)) None (Some (HTree sub)) = (s, Inr None)"
        by (rule HTree.IH[OF _ oid_in_set ok(2) sub]) (use e es in simp)
      with Some TTree sub show ?thesis
        by (simp add: loopBody_def isTree_def shaOf_def mapGet_Nil)
    next
      case TBlob
      with Some show ?thesis
        by (simp add: loopBody_def contentRule_def isTree_def shaOf_def mapGet_Nil)
    qed
  qed
  have "mergeTrees res s (Some (HTree bs)) None (Some (HTree bs)) =
          (if ([]::entry list) = [] then (s, Inr None) else (insert (HTree []) s, Inr (Some (HTree []))))"
    by (rule mergeTrees_by_pick[where be=bs and oe="[]" and te=bs])
       (simp_all add: readEntries_valid[OF valid] readEntries_None step)
  then show ?case by simp
qed

text \<open>A directory that only one side has, with no base, is taken as it is.\<close>

lemma merge_new_theirs:
  "validTree s t \<Longrightarrow> t = HTree ts \<Longrightarrow> ts \<noteq> [] \<Longrightarrow>
   mergeTrees res s None None (Some (HTree ts)) = (s, Inr (Some (HTree ts)))"
proof (induction t arbitrary: ts)
  case (HBlob c)
  then show ?case by simp
next
  case (HTree es)
  then have valid: "validTree s (HTree ts)" by simp
  from HTree.prems have es: "es = ts" by simp
  have step: "loopBody res s [] [] ts p = (s, Inr (mapGet ts p))" for p
  proof (cases "mapGet ts p")
    case None
    then show ?thesis by (simp add: rule_defs mapGet_Nil)
  next
    case (Some e)
    then have e: "e \<in> set ts" and p: "path e = p" by (auto dest: mapGet_in mapGet_path)
    have ok: "entryOk e" "validTree s (oid e)"
      using validTree_entry[OF valid e] by simp_all
    show ?thesis
    proof (cases "type e")
      case TTree
      with ok obtain sub where sub: "oid e = HTree sub" "sub \<noteq> []" "mode e = ''040000''"
        by (auto dest: entryOk_tree)
      have "mergeTrees res s None None (Some (HTree sub)) = (s, Inr (Some (HTree sub)))"
        by (rule HTree.IH[OF _ oid_in_set ok(2) sub(1,2)]) (use e es in simp)
      with Some TTree sub show ?thesis
        by (simp add: rule_defs mapGet_Nil entry_eq_tree[OF p TTree sub(3) sub(1)])
    next
      case TBlob
      with Some show ?thesis by (simp add: rule_defs mapGet_Nil)
    qed
  qed
  have "mergeTrees res s None None (Some (HTree ts)) =
          (if ts = [] then (s, Inr None) else (insert (HTree ts) s, Inr (Some (HTree ts))))"
    using valid
    by (intro mergeTrees_by_pick[where be="[]" and oe="[]" and te=ts])
       (simp_all add: readEntries_valid[OF valid] readEntries_None step allPaths_props)
  with valid HTree.prems show ?case by (simp add: insert_absorb)
qed

lemma merge_new_ours:
  "validTree s t \<Longrightarrow> t = HTree ts \<Longrightarrow> ts \<noteq> [] \<Longrightarrow>
   mergeTrees res s None (Some (HTree ts)) None = (s, Inr (Some (HTree ts)))"
proof (induction t arbitrary: ts)
  case (HBlob c)
  then show ?case by simp
next
  case (HTree es)
  then have valid: "validTree s (HTree ts)" by simp
  from HTree.prems have es: "es = ts" by simp
  have step: "loopBody res s [] ts [] p = (s, Inr (mapGet ts p))" for p
  proof (cases "mapGet ts p")
    case None
    then show ?thesis by (simp add: rule_defs mapGet_Nil)
  next
    case (Some e)
    then have e: "e \<in> set ts" and p: "path e = p" by (auto dest: mapGet_in mapGet_path)
    have ok: "entryOk e" "validTree s (oid e)"
      using validTree_entry[OF valid e] by simp_all
    show ?thesis
    proof (cases "type e")
      case TTree
      with ok obtain sub where sub: "oid e = HTree sub" "sub \<noteq> []" "mode e = ''040000''"
        by (auto dest: entryOk_tree)
      have "mergeTrees res s None (Some (HTree sub)) None = (s, Inr (Some (HTree sub)))"
        by (rule HTree.IH[OF _ oid_in_set ok(2) sub(1,2)]) (use e es in simp)
      with Some TTree sub show ?thesis
        by (simp add: rule_defs mapGet_Nil entry_eq_tree[OF p TTree sub(3) sub(1)])
    next
      case TBlob
      with Some show ?thesis by (simp add: rule_defs mapGet_Nil)
    qed
  qed
  have "mergeTrees res s None (Some (HTree ts)) None =
          (if ts = [] then (s, Inr None) else (insert (HTree ts) s, Inr (Some (HTree ts))))"
    using valid
    by (intro mergeTrees_by_pick[where be="[]" and oe=ts and te="[]"])
       (simp_all add: readEntries_valid[OF valid] readEntries_None step allPaths_props)
  with valid HTree.prems show ?case by (simp add: insert_absorb)
qed

lemma kindsAgree_entry:
  assumes "kindsAgree (HTree bs) (HTree ts)" "distinct (map path ts)"
    "mapGet bs p = Some eb" "mapGet ts p = Some et"
  shows "type eb = type et \<and> kindsAgree (oid eb) (oid et)"
proof -
  have eb: "eb \<in> set bs" "path eb = p"
    using assms(3) by (auto dest: mapGet_in mapGet_path)
  have "find (\<lambda>x. path x = path eb) ts = Some et"
    using assms(2,4) eb(2) by (simp add: mapGet_find)
  with assms(1) eb(1) show ?thesis
    by (auto simp: list_all_iff)
qed

lemma modesAgree_entry:
  assumes "modesAgree (HTree bs) (HTree ts)" "distinct (map path ts)"
    "mapGet bs p = Some eb" "mapGet ts p = Some et"
  shows "(oid eb = oid et \<longrightarrow> mode eb = mode et) \<and> modesAgree (oid eb) (oid et)"
proof -
  have eb: "eb \<in> set bs" "path eb = p"
    using assms(3) by (auto dest: mapGet_in mapGet_path)
  have "find (\<lambda>x. path x = path eb) ts = Some et"
    using assms(2,4) eb(2) by (simp add: mapGet_find)
  with assms(1) eb(1) show ?thesis
    by (auto simp: list_all_iff)
qed

lemma entry_eqI:
  "path a = path b \<Longrightarrow> oid a = oid b \<Longrightarrow> type a = type b \<Longrightarrow> mode a = mode b \<Longrightarrow> a = (b::entry)"
  by (cases a; cases b) simp

lemma merge_fast_forward:
  "validTree s b \<Longrightarrow> validTree s t \<Longrightarrow> b = HTree bs \<Longrightarrow> t = HTree ts \<Longrightarrow> ts \<noteq> [] \<Longrightarrow>
   kindsAgree b t \<Longrightarrow> modesAgree b t \<Longrightarrow>
   mergeTrees res s (Some b) (Some b) (Some t) = (s, Inr (Some t))"
proof (induction t arbitrary: b bs ts)
  case (HBlob c)
  then show ?case by simp
next
  case (HTree es)
  then have vb: "validTree s (HTree bs)" and vt: "validTree s (HTree ts)"
    and ka: "kindsAgree (HTree bs) (HTree ts)" and ma: "modesAgree (HTree bs) (HTree ts)"
    and es: "es = ts" and b: "b = HTree bs"
    by simp_all
  from vt have dts: "distinct (map path ts)" by simp
  have step: "loopBody res s bs bs ts p = (s, Inr (mapGet ts p))" for p
  proof (cases "mapGet bs p")
    case None
    note nb = None
    show ?thesis
    proof (cases "mapGet ts p")
      case None
      with nb show ?thesis by (simp add: rule_defs)
    next
      case (Some et)
      then have et: "et \<in> set ts" and p: "path et = p" by (auto dest: mapGet_in mapGet_path)
      have ok: "entryOk et" "validTree s (oid et)"
        using validTree_entry[OF vt et] by simp_all
      show ?thesis
      proof (cases "type et")
        case TTree
        with ok obtain sub where sub: "oid et = HTree sub" "sub \<noteq> []" "mode et = ''040000''"
          by (auto dest: entryOk_tree)
        have "mergeTrees res s None None (Some (HTree sub)) = (s, Inr (Some (HTree sub)))"
          using merge_new_theirs[OF ok(2) sub(1,2)] .
        with Some nb TTree sub show ?thesis
          by (simp add: rule_defs entry_eq_tree[OF p TTree sub(3) sub(1)])
      next
        case TBlob
        with Some nb show ?thesis by (simp add: rule_defs)
      qed
    qed
  next
    case (Some eb)
    note sb = Some
    then have eb: "eb \<in> set bs" and pb: "path eb = p" by (auto dest: mapGet_in mapGet_path)
    have okb: "entryOk eb" "validTree s (oid eb)"
      using validTree_entry[OF vb eb] by simp_all
    show ?thesis
    proof (cases "mapGet ts p")
      case None
      show ?thesis
      proof (cases "type eb")
        case TTree
        with okb obtain sub where sub: "oid eb = HTree sub" by (auto dest: entryOk_tree)
        have "mergeTrees res s (Some (HTree sub)) (Some (HTree sub)) None = (s, Inr None)"
          using merge_gone_theirs[OF okb(2) sub] .
        with None sb TTree sub show ?thesis by (simp add: rule_defs)
      next
        case TBlob
        with None sb show ?thesis by (simp add: rule_defs)
      qed
    next
      case (Some et)
      then have et: "et \<in> set ts" and p: "path et = p" by (auto dest: mapGet_in mapGet_path)
      have ok: "entryOk et" "validTree s (oid et)"
        using validTree_entry[OF vt et] by simp_all
      have agree: "type eb = type et" "kindsAgree (oid eb) (oid et)"
        "oid eb = oid et \<longrightarrow> mode eb = mode et" "modesAgree (oid eb) (oid et)"
        using kindsAgree_entry[OF ka dts sb Some] modesAgree_entry[OF ma dts sb Some] by simp_all
      show ?thesis
      proof (cases "type et")
        case TTree
        with ok obtain sub where sub: "oid et = HTree sub" "sub \<noteq> []" "mode et = ''040000''"
          by (auto dest: entryOk_tree)
        from TTree agree okb obtain subb where subb: "oid eb = HTree subb"
          by (auto dest: entryOk_tree)
        have "mergeTrees res s (Some (oid eb)) (Some (oid eb)) (Some (oid et)) = (s, Inr (Some (oid et)))"
          by (rule HTree.IH[OF _ oid_in_set okb(2) ok(2) subb sub(1,2) agree(2,4)]) (use et es in simp)
        with Some sb TTree agree(1) sub show ?thesis
          by (simp add: rule_defs entry_eq_tree[OF p TTree sub(3) sub(1)])
      next
        case TBlob
        show ?thesis
        proof (cases "oid eb = oid et")
          case True
          with agree(1,3) p pb have "eb = et" by (intro entry_eqI) simp_all
          with Some sb TBlob show ?thesis by (simp add: rule_defs)
        next
          case False
          with Some sb TBlob agree(1) show ?thesis by (simp add: rule_defs)
        qed
      qed
    qed
  qed
  have "mergeTrees res s (Some (HTree bs)) (Some (HTree bs)) (Some (HTree ts)) =
          (if ts = [] then (s, Inr None) else (insert (HTree ts) s, Inr (Some (HTree ts))))"
    using vt
    by (intro mergeTrees_by_pick[where be=bs and oe=bs and te=ts])
       (auto simp: readEntries_valid[OF vb] readEntries_valid[OF vt] step allPaths_props)
  with vt HTree.prems show ?case by (simp add: insert_absorb)
qed

lemma merge_no_op:
  "validTree s b \<Longrightarrow> validTree s t \<Longrightarrow> b = HTree bs \<Longrightarrow> t = HTree ts \<Longrightarrow> ts \<noteq> [] \<Longrightarrow>
   kindsAgree b t \<Longrightarrow>
   mergeTrees res s (Some b) (Some t) (Some b) = (s, Inr (Some t))"
proof (induction t arbitrary: b bs ts)
  case (HBlob c)
  then show ?case by simp
next
  case (HTree es)
  then have vb: "validTree s (HTree bs)" and vt: "validTree s (HTree ts)"
    and ka: "kindsAgree (HTree bs) (HTree ts)"
    and es: "es = ts" and b: "b = HTree bs"
    by simp_all
  from vt have dts: "distinct (map path ts)" by simp
  have step: "loopBody res s bs ts bs p = (s, Inr (mapGet ts p))" for p
  proof (cases "mapGet bs p")
    case None
    note nb = None
    show ?thesis
    proof (cases "mapGet ts p")
      case None
      with nb show ?thesis by (simp add: rule_defs)
    next
      case (Some et)
      then have et: "et \<in> set ts" and p: "path et = p" by (auto dest: mapGet_in mapGet_path)
      have ok: "entryOk et" "validTree s (oid et)"
        using validTree_entry[OF vt et] by simp_all
      show ?thesis
      proof (cases "type et")
        case TTree
        with ok obtain sub where sub: "oid et = HTree sub" "sub \<noteq> []" "mode et = ''040000''"
          by (auto dest: entryOk_tree)
        have "mergeTrees res s None (Some (HTree sub)) None = (s, Inr (Some (HTree sub)))"
          using merge_new_ours[OF ok(2) sub(1,2)] .
        with Some nb TTree sub show ?thesis
          by (simp add: rule_defs entry_eq_tree[OF p TTree sub(3) sub(1)])
      next
        case TBlob
        with Some nb show ?thesis by (simp add: rule_defs)
      qed
    qed
  next
    case (Some eb)
    note sb = Some
    then have eb: "eb \<in> set bs" and pb: "path eb = p" by (auto dest: mapGet_in mapGet_path)
    have okb: "entryOk eb" "validTree s (oid eb)"
      using validTree_entry[OF vb eb] by simp_all
    show ?thesis
    proof (cases "mapGet ts p")
      case None
      show ?thesis
      proof (cases "type eb")
        case TTree
        with okb obtain sub where sub: "oid eb = HTree sub" by (auto dest: entryOk_tree)
        have "mergeTrees res s (Some (HTree sub)) None (Some (HTree sub)) = (s, Inr None)"
          using merge_gone_ours[OF okb(2) sub] .
        with None sb TTree sub show ?thesis by (simp add: rule_defs)
      next
        case TBlob
        with None sb show ?thesis by (simp add: rule_defs)
      qed
    next
      case (Some et)
      then have et: "et \<in> set ts" and p: "path et = p" by (auto dest: mapGet_in mapGet_path)
      have ok: "entryOk et" "validTree s (oid et)"
        using validTree_entry[OF vt et] by simp_all
      have agree: "type eb = type et" "kindsAgree (oid eb) (oid et)"
        using kindsAgree_entry[OF ka dts sb Some] by simp_all
      show ?thesis
      proof (cases "type et")
        case TTree
        with ok obtain sub where sub: "oid et = HTree sub" "sub \<noteq> []" "mode et = ''040000''"
          by (auto dest: entryOk_tree)
        from TTree agree okb obtain subb where subb: "oid eb = HTree subb"
          by (auto dest: entryOk_tree)
        have "mergeTrees res s (Some (oid eb)) (Some (oid et)) (Some (oid eb)) = (s, Inr (Some (oid et)))"
          by (rule HTree.IH[OF _ oid_in_set okb(2) ok(2) subb sub(1,2) agree(2)]) (use et es in simp)
        with Some sb TTree agree(1) sub show ?thesis
          by (simp add: rule_defs entry_eq_tree[OF p TTree sub(3) sub(1)])
      next
        case TBlob
        with Some sb agree(1) show ?thesis by (auto simp: rule_defs)
      qed
    qed
  qed
  have "mergeTrees res s (Some (HTree bs)) (Some (HTree ts)) (Some (HTree bs)) =
          (if ts = [] then (s, Inr None) else (insert (HTree ts) s, Inr (Some (HTree ts))))"
    using vt
    by (intro mergeTrees_by_pick[where be=bs and oe=ts and te=bs])
       (auto simp: readEntries_valid[OF vb] readEntries_valid[OF vt] step allPaths_props)
  with vt HTree.prems show ?case by (simp add: insert_absorb)
qed

lemma readEntries_Inr: "readEntries s h = Inr es \<Longrightarrow> es = treeEntries h"
  by (auto simp: readEntries_def readTree_def treeEntries_def split: option.splits if_splits hash.splits)

lemma mergeTrees_origin:
  assumes "mergeTrees res s b ou t = (s', Inr (Some r))"
  shows "\<exists>rs. r = HTree rs \<and>
           (\<forall>e\<in>set rs. e \<in> set (treeEntries ou) \<or> e \<in> set (treeEntries t) \<or> freshEntry res e)"
proof -
  from assms obtain be oe te s1 out where
    rd: "readEntries s ou = Inr oe" "readEntries s t = Inr te"
    and loop: "mergeLoop res s be oe te (allPaths be oe te) [] = (s1, Inr out)"
    and r: "r = HTree (sort_key path out)"
    unfolding mergeTrees.simps[of res s b ou t]
    by (auto simp: writeTree_eq split: sum.splits prod.splits if_splits)
  have "e \<in> set oe \<or> e \<in> set te \<or> freshEntry res e" if "e \<in> set out" for e
    using mergeLoop_origin[OF loop that] by simp
  then show ?thesis
    using r rd by (auto dest!: readEntries_Inr)
qed

section \<open>Removal\<close>

lemma findIndex_Some: "findIndex P xs = Some i \<Longrightarrow> i < length xs \<and> P (xs ! i)"
proof (induction xs arbitrary: i)
  case Nil
  then show ?case by simp
next
  case (Cons x xs)
  then show ?case by (auto split: if_splits)
qed

lemma findIndex_None: "findIndex P xs = None \<longleftrightarrow> (\<forall>x \<in> set xs. \<not> P x)"
  by (induction xs) auto

lemma find_findIndex: "find P xs = map_option (\<lambda>i. xs ! i) (findIndex P xs)"
  by (induction xs) (auto simp: option.map_comp comp_def)

lemma finishRemove_cases:
  "finishRemove s es = (s', out) \<Longrightarrow>
   (es = [] \<and> s' = s \<and> out = Inr None) \<or>
   (es \<noteq> [] \<and> s' = insert (HTree (sort_key path es)) s \<and> out = Inr (Some (HTree (sort_key path es))))"
  by (auto simp: finishRemove_def writeTree_eq split: if_splits)

lemma removeTreeEntry_quiet:
  "removeTreeEntry s h parts = (s', out) \<Longrightarrow> out = Inr None \<or> (\<exists>e. out = Inl e) \<Longrightarrow> s' = s"
proof (induction parts arbitrary: h s' out)
  case Nil
  then show ?case by simp
next
  case (Cons part rest)
  show ?case
  proof (cases "readTree s h")
    case (Inl e)
    with Cons.prems show ?thesis by simp
  next
    case (Inr es)
    show ?thesis
    proof (cases "findIndex (\<lambda>e. path e = part) es")
      case None
      with Inr Cons.prems show ?thesis by simp
    next
      case (Some i)
      show ?thesis
      proof (cases "rest = []")
        case True
        with Inr Some Cons.prems show ?thesis
          by (auto dest!: finishRemove_cases)
      next
        case False
        show ?thesis
        proof (cases "type (es ! i) = TTree")
          case nt: False
          with Inr Some False Cons.prems show ?thesis by simp
        next
          case True
          obtain s1 r1 where rec: "removeTreeEntry s (oid (es ! i)) rest = (s1, r1)"
            by (cases "removeTreeEntry s (oid (es ! i)) rest")
          show ?thesis
          proof (cases r1)
            case (Inl e)
            with rec have "s1 = s" by (auto dest: Cons.IH)
            with Inr Some False True rec Inl Cons.prems show ?thesis by simp
          next
            case (Inr m)
            note rr = Inr
            show ?thesis
            proof (cases m)
              case None
              with rec rr have "s1 = s" by (auto dest: Cons.IH)
              with \<open>readTree s h = Inr es\<close> Some False True rec rr None Cons.prems show ?thesis
                by (auto dest!: finishRemove_cases)
            next
              case (Some sub)
              have "setOid i sub es \<noteq> []"
                using findIndex_Some[OF \<open>findIndex (\<lambda>e. path e = part) es = Some i\<close>]
                by (auto simp: setOid_def)
              with \<open>readTree s h = Inr es\<close> \<open>findIndex (\<lambda>e. path e = part) es = Some i\<close>
                False True rec rr Some Cons.prems show ?thesis
                by (auto dest!: finishRemove_cases)
            qed
          qed
        qed
      qed
    qed
  qed
qed

lemma removeTreeEntry_as_walk:
  "parts \<noteq> [] \<Longrightarrow>
   (case walkParts s tp \<lparr>sha = h, tmode = m, ttype = TTree\<rparr> prev parts of
      Inr r \<Rightarrow> \<exists>s' out. removeTreeEntry s h parts = (s', Inr out)
    | Inl (PathNotFound tp' x) \<Rightarrow> \<exists>t. removeTreeEntry s h parts = (s, Inl (SegmentNotFound x t))
    | Inl (IsAFile x) \<Rightarrow> removeTreeEntry s h parts = (s, Inl (NotADirectory x))
    | Inl e \<Rightarrow> removeTreeEntry s h parts = (s, Inl e))"
proof (induction parts arbitrary: h m prev)
  case Nil
  then show ?case by simp
next
  case (Cons part rest)
  show ?case
  proof (cases "readTree s h")
    case (Inl e)
    then have "(\<exists>x. e = NotFoundError x) \<or> (\<exists>x. e = ObjectTypeError x)"
      by (auto simp: readTree_def split: if_splits hash.splits)
    with Inl show ?thesis by auto
  next
    case (Inr es)
    show ?thesis
    proof (cases "findIndex (\<lambda>e. path e = part) es")
      case None
      with Inr show ?thesis by (simp add: find_findIndex)
    next
      case (Some i)
      show ?thesis
      proof (cases "rest = []")
        case True
        with Inr Some show ?thesis
          by (cases "finishRemove s (splice1 i es)") (auto simp: find_findIndex dest!: finishRemove_cases)
      next
        case False
        then obtain q rest' where rest: "rest = q # rest'" by (cases rest) auto
        show ?thesis
        proof (cases "type (es ! i) = TTree")
          case nt: False
          with Inr Some rest show ?thesis by (simp add: find_findIndex)
        next
          case True
          let ?w = "walkParts s tp \<lparr>sha = oid (es ! i), tmode = Some (mode (es ! i)), ttype = TTree\<rparr> part rest"
          have w: "walkParts s tp \<lparr>sha = h, tmode = m, ttype = TTree\<rparr> prev (part # rest) = ?w"
            using Inr Some True by (simp add: find_findIndex)
          have IH: "case ?w of
              Inr r \<Rightarrow> \<exists>s' out. removeTreeEntry s (oid (es ! i)) rest = (s', Inr out)
            | Inl (PathNotFound tp' x) \<Rightarrow> \<exists>t. removeTreeEntry s (oid (es ! i)) rest = (s, Inl (SegmentNotFound x t))
            | Inl (IsAFile x) \<Rightarrow> removeTreeEntry s (oid (es ! i)) rest = (s, Inl (NotADirectory x))
            | Inl e \<Rightarrow> removeTreeEntry s (oid (es ! i)) rest = (s, Inl e)"
            by (rule Cons.IH) (use False in simp)
          have step: "removeTreeEntry s h (part # rest) =
                        (case removeTreeEntry s (oid (es ! i)) rest of
                           (s', Inl e) \<Rightarrow> (s', Inl e)
                         | (s', Inr None) \<Rightarrow> finishRemove s' (splice1 i es)
                         | (s', Inr (Some sub)) \<Rightarrow> finishRemove s' (setOid i sub es))"
            using Inr Some False True by simp
          show ?thesis
          proof (cases ?w)
            case (Inr r)
            with IH obtain s1 out where "removeTreeEntry s (oid (es ! i)) rest = (s1, Inr out)"
              by auto
            then have "\<exists>s' out'. removeTreeEntry s h (part # rest) = (s', Inr out')"
              unfolding step
              by (cases out; cases "finishRemove s1 (splice1 i es)"; cases "finishRemove s1 (setOid i (the out) es)")
                 (auto dest!: finishRemove_cases)
            with Inr show ?thesis unfolding w by simp
          next
            case (Inl e)
            with IH show ?thesis unfolding w step
              by (cases e) auto
          qed
        qed
      qed
    qed
  qed
qed

lemma removeTreeEntry_step:
  "readTree s h = Inr es \<Longrightarrow> findIndex (\<lambda>e. path e = d) es = Some i \<Longrightarrow>
   type (es ! i) = TTree \<Longrightarrow> rest \<noteq> [] \<Longrightarrow>
   removeTreeEntry s h (d # rest) =
     (case removeTreeEntry s (oid (es ! i)) rest of
        (s', Inl e) \<Rightarrow> (s', Inl e)
      | (s', Inr None) \<Rightarrow> finishRemove s' (splice1 i es)
      | (s', Inr (Some sub)) \<Rightarrow> finishRemove s' (setOid i sub es))"
  by simp

lemma removeTreeEntry_last:
  "readTree s h = Inr es \<Longrightarrow> findIndex (\<lambda>e. path e = f) es = Some i \<Longrightarrow>
   removeTreeEntry s h [f] = finishRemove s (splice1 i es)"
  by simp

lemma finishRemove_eq:
  "finishRemove s es =
     (if es = [] then (s, Inr None)
      else (insert (HTree (sort_key path es)) s, Inr (Some (HTree (sort_key path es)))))"
  by (simp add: finishRemove_def writeTree_eq)

lemma sort_key_Nil_iff: "sort_key f xs = [] \<longleftrightarrow> xs = []"
  by (metis length_0_conv length_sort)

lemma removeTreeEntry_not_dir:
  "readTree s h = Inr es \<Longrightarrow> findIndex (\<lambda>e. path e = d) es = Some i \<Longrightarrow>
   type (es ! i) \<noteq> TTree \<Longrightarrow> rest \<noteq> [] \<Longrightarrow>
   removeTreeEntry s h (d # rest) = (s, Inl (NotADirectory d))"
  by simp

lemma removeTreeEntry_writes:
  "removeTreeEntry s h parts = (s', out) \<Longrightarrow> x \<in> s' \<Longrightarrow>
   x \<in> s \<or> (\<exists>es. x = HTree es \<and> es \<noteq> [])"
proof (induction parts arbitrary: h s' out x)
  case Nil
  then show ?case by simp
next
  case (Cons part rest)
  show ?case
  proof (cases "readTree s h")
    case (Inl e)
    with Cons.prems show ?thesis by simp
  next
    case (Inr es)
    show ?thesis
    proof (cases "findIndex (\<lambda>e. path e = part) es")
      case None
      with Inr Cons.prems show ?thesis by simp
    next
      case (Some i)
      show ?thesis
      proof (cases "rest = []")
        case True
        let ?zs = "splice1 i es"
        from Cons.prems(1) have fin: "finishRemove s ?zs = (s', out)"
          unfolding True removeTreeEntry_last[OF Inr Some] .
        show ?thesis
        proof (cases "?zs = [] \<or> x \<noteq> HTree (sort_key path ?zs)")
          case True
          with fin Cons.prems(2) have "x \<in> s"
            by (cases "?zs = []") (auto simp: finishRemove_eq)
          then show ?thesis ..
        next
          case False
          then show ?thesis by (simp add: sort_key_Nil_iff)
        qed
      next
        case ne: False
        show ?thesis
        proof (cases "type (es ! i) = TTree")
          case False
          with Cons.prems show ?thesis
            unfolding removeTreeEntry_not_dir[OF Inr Some False ne] by simp
        next
          case nt: True
          obtain s1 r1 where rec: "removeTreeEntry s (oid (es ! i)) rest = (s1, r1)"
            by (cases "removeTreeEntry s (oid (es ! i)) rest")
          have inner: "y \<in> s1 \<Longrightarrow> y \<in> s \<or> (\<exists>es. y = HTree es \<and> es \<noteq> [])" for y
            by (rule Cons.IH[OF rec])
          have "\<exists>zs. (s', out) = (s1, r1) \<or> finishRemove s1 zs = (s', out)"
            using Cons.prems(1) unfolding removeTreeEntry_step[OF Inr Some nt ne] rec
            by (cases r1; cases "projr r1") auto
          then obtain zs where fin: "(s', out) = (s1, r1) \<or> finishRemove s1 zs = (s', out)" ..
          then have "s' = s1 \<or> (zs \<noteq> [] \<and> s' = insert (HTree (sort_key path zs)) s1)"
            by (cases "zs = []") (auto simp: finishRemove_eq)
          then show ?thesis
          proof
            assume "s' = s1"
            with Cons.prems(2) inner show ?thesis by simp
          next
            assume z: "zs \<noteq> [] \<and> s' = insert (HTree (sort_key path zs)) s1"
            show ?thesis
            proof (cases "x = HTree (sort_key path zs)")
              case True
              with z show ?thesis by (simp add: sort_key_Nil_iff)
            next
              case False
              with z Cons.prems(2) have "x \<in> s1" by simp
              then show ?thesis by (rule inner)
            qed
          qed
        qed
      qed
    qed
  qed
qed

lemma finishRemove_nonempty:
  assumes "finishRemove s es = (s', Inr (Some h'))"
  shows "h' \<noteq> HTree []"
proof -
  from finishRemove_cases[OF assms] have "es \<noteq> []" "h' = HTree (sort_key path es)"
    by auto
  then show ?thesis by (simp add: sort_key_Nil_iff)
qed

lemma find_append_cases:
  "find P (xs @ ys) = (case find P xs of None \<Rightarrow> find P ys | Some x \<Rightarrow> Some x)"
  by (induction xs) simp_all

lemma removeTreeEntry_nonempty:
  assumes "removeTreeEntry s h parts = (s', Inr (Some h'))"
  shows "h' \<noteq> HTree []"
proof (cases parts)
  case Nil
  with assms show ?thesis by simp
next
  case (Cons part rest)
  show ?thesis
  proof (cases "readTree s h")
    case (Inl e)
    with assms Cons show ?thesis by simp
  next
    case (Inr es)
    show ?thesis
    proof (cases "findIndex (\<lambda>e. path e = part) es")
      case None
      with assms Cons Inr show ?thesis by simp
    next
      case (Some i)
      show ?thesis
      proof (cases "rest = []")
        case True
        with assms Cons have "finishRemove s (splice1 i es) = (s', Inr (Some h'))"
          using removeTreeEntry_last[OF Inr Some] by simp
        then show ?thesis by (rule finishRemove_nonempty)
      next
        case ne: False
        show ?thesis
        proof (cases "type (es ! i) = TTree")
          case False
          with assms Cons Inr Some ne show ?thesis by (simp add: Let_def)
        next
          case True
          obtain s1 r where sub: "removeTreeEntry s (oid (es ! i)) rest = (s1, r)"
            by (cases "removeTreeEntry s (oid (es ! i)) rest")
          from assms have "\<exists>zs. finishRemove s1 zs = (s', Inr (Some h'))"
            unfolding Cons removeTreeEntry_step[OF Inr Some True ne] sub
            by (auto split: sum.splits option.splits)
          then show ?thesis by (auto dest: finishRemove_nonempty)
        qed
      qed
    qed
  qed
qed

lemma find_splice1:
  assumes "distinct (map path es)" and "i < length es" and "path (es ! i) = d"
  shows "find (\<lambda>e. path e = q) (splice1 i es) = (if q = d then None else find (\<lambda>e. path e = q) es)"
proof -
  define xs x ys where "xs = take i es" and "x = es ! i" and "ys = drop (Suc i) es"
  have es: "es = xs @ x # ys"
    unfolding xs_def x_def ys_def using assms(2) by (rule id_take_nth_drop)
  have sp: "splice1 i es = xs @ ys"
    by (simp add: splice1_def xs_def ys_def)
  have x: "path x = d" using assms(3) by (simp add: x_def)
  from assms(1) have out: "d \<notin> path ` set xs" "d \<notin> path ` set ys"
    unfolding es using x by auto
  show ?thesis
  proof (cases "q = d")
    case True
    with out have "find (\<lambda>e. path e = q) (xs @ ys) = None"
      by (auto simp: find_None_iff)
    with True show ?thesis by (simp add: sp)
  next
    case False
    with x have "find (\<lambda>e. path e = q) (xs @ x # ys) = find (\<lambda>e. path e = q) (xs @ ys)"
      by (auto simp: find_append_cases split: option.splits)
    with False show ?thesis by (simp add: sp es[symmetric])
  qed
qed

lemma removeTreeEntry_drops:
  assumes rd: "readTree s h = Inr es" and uniq: "distinct (map path es)"
    and ix: "findIndex (\<lambda>e. path e = d) es = Some i"
    and sub: "rest = [] \<or> type (es ! i) = TTree \<and> removeTreeEntry s (oid (es ! i)) rest = (sc, Inr None)"
    and run: "removeTreeEntry s h (d # rest) = (s', Inr (Some h'))"
  shows "entryAt (Some h') q = (if q = d then None else entryAt (Some h) q)"
proof -
  have "finishRemove s (splice1 i es) = (s', Inr (Some h'))"
  proof (cases "rest = []")
    case True
    from run show ?thesis unfolding True removeTreeEntry_last[OF rd ix] .
  next
    case False
    with sub have dir: "type (es ! i) = TTree"
      and below: "removeTreeEntry s (oid (es ! i)) rest = (sc, Inr None)"
      by blast+
    from below have "sc = s" by (rule removeTreeEntry_quiet) simp
    with run below show ?thesis
      unfolding removeTreeEntry_step[OF rd ix dir False] by (simp del: removeTreeEntry.simps)
  qed
  then have h': "h' = HTree (sort_key path (splice1 i es))"
    by (auto dest!: finishRemove_cases)
  from findIndex_Some[OF ix] have pre: "i < length es" "path (es ! i) = d"
    by simp_all
  from rd have h: "h = HTree es" by (simp add: readTree_Inr)
  show ?thesis
    by (simp add: entryAt_def h' h find_sort_key find_splice1[OF uniq pre])
qed

section \<open>Upsert: the frame and the way back\<close>

lemma upsertTree_Cons_Inr:
  assumes "upsertTree s T (c # rest) X = (s', Inr h)"
  obtains tree0 new s1 where
    "(case T of None \<Rightarrow> Inr [] | Some t \<Rightarrow> readTree s t) = Inr tree0"
    "h = HTree (sort_key path (filter (\<lambda>e. path e \<noteq> c) tree0 @ [new]))"
    "s' = insert h s1" "s \<subseteq> s1" "path new = c"
    "rest = [] \<Longrightarrow> new = Entry ''100644'' c X TBlob \<and> s1 = s"
    "rest \<noteq> [] \<Longrightarrow> \<exists>sub. new = Entry ''040000'' c sub TTree \<and>
        upsertTree s (map_option oid (find (\<lambda>e. path e = c) tree0)) rest X = (s1, Inr sub)"
proof -
  from assms obtain tree0 where
    rd: "(case T of None \<Rightarrow> Inr [] | Some t \<Rightarrow> readTree s t) = Inr tree0"
    by (auto split: sum.splits)
  show thesis
  proof (cases "rest = []")
    case True
    with assms rd show ?thesis
      by (intro that[of tree0 "Entry ''100644'' c X TBlob" s]) (auto simp: writeTree_eq Let_def)
  next
    case False
    with assms rd obtain s1 sub where
      rec: "upsertTree s (map_option oid (find (\<lambda>e. path e = c) tree0)) rest X = (s1, Inr sub)"
      and h: "h = HTree (sort_key path (filter (\<lambda>e. path e \<noteq> c) tree0 @ [Entry ''040000'' c sub TTree]))"
      and s': "s' = insert h s1"
      by (auto simp: writeTree_eq Let_def split: sum.splits prod.splits)
    from rec have "s \<subseteq> s1" by (rule upsertTree_store_mono)
    with rd rec h s' False show ?thesis
      by (intro that[of tree0 "Entry ''040000'' c sub TTree" s1]) auto
  qed
qed

lemma find_other:
  "path new = c \<Longrightarrow> y \<noteq> c \<Longrightarrow>
   find (\<lambda>e. path e = y) (sort_key path (filter (\<lambda>e. path e \<noteq> c) es @ [new]))
     = find (\<lambda>e. path e = y) es"
  unfolding find_sort_key by (induction es) auto

lemma find_same:
  "path new = c \<Longrightarrow>
   find (\<lambda>e. path e = c) (sort_key path (filter (\<lambda>e. path e \<noteq> c) es @ [new])) = Some new"
  unfolding find_sort_key by (induction es) auto

text \<open>Below a well-formed tree of the store, a walk reads the same in every larger store.\<close>

lemma walkParts_closed:
  "validTree s (sha cur) \<Longrightarrow> (ttype cur = TTree) = (\<exists>es. sha cur = HTree es) \<Longrightarrow> s \<subseteq> s' \<Longrightarrow>
   walkParts s' tq cur prev q = walkParts s tq cur prev q"
proof (induction q arbitrary: cur prev)
  case Nil
  show ?case by simp
next
  case (Cons y q)
  show ?case
  proof (cases "ttype cur = TTree")
    case False
    then show ?thesis by simp
  next
    case True
    with Cons.prems obtain es where es: "sha cur = HTree es" by auto
    with Cons.prems have rd: "readTree s (sha cur) = Inr es" "readTree s' (sha cur) = Inr es"
      by (auto simp: readTree_def)
    show ?thesis
    proof (cases "find (\<lambda>e. path e = y) es")
      case None
      with True rd show ?thesis by simp
    next
      case (Some e)
      then have "e \<in> set es" by (auto simp: find_Some_iff)
      with Cons.prems(1) es have ok: "entryOk e" "validTree s (oid e)"
        using validTree_entry[of s es e] by simp_all
      have kind: "(type e = TTree) = (\<exists>es'. oid e = HTree es')"
        using ok(1) by (cases "type e"; cases "oid e") (auto simp: entryOk_def)
      have "walkParts s' tq \<lparr>sha = oid e, tmode = Some (mode e), ttype = type e\<rparr> y q
              = walkParts s tq \<lparr>sha = oid e, tmode = Some (mode e), ttype = type e\<rparr> y q"
        by (rule Cons.IH) (use ok kind Cons.prems(3) in simp_all)
      with True rd Some show ?thesis by simp
    qed
  qed
qed

text \<open>In the directories that an upsert creates afresh, nothing but the new path is found.\<close>

lemma upsert_fresh_frame:
  "upsertTree s None parts X = (s', Inr h) \<Longrightarrow> \<not> prefix q parts \<Longrightarrow> \<not> prefix parts q \<Longrightarrow>
   walkParts s'' tq \<lparr>sha = h, tmode = m, ttype = TTree\<rparr> prev q \<noteq> Inr r"
proof (induction parts arbitrary: s s' h q m prev)
  case Nil
  then show ?case by simp
next
  case (Cons c rest)
  from Cons.prems(2) obtain y q' where q: "q = y # q'" by (cases q) auto
  from Cons.prems(1) obtain tree0 new s1 where
    rd: "(case None of None \<Rightarrow> Inr [] | Some t \<Rightarrow> readTree s t) = Inr tree0"
    and h: "h = HTree (sort_key path (filter (\<lambda>e. path e \<noteq> c) tree0 @ [new]))"
    and new: "path new = c"
      "rest \<noteq> [] \<Longrightarrow> \<exists>sub. new = Entry ''040000'' c sub TTree \<and>
        upsertTree s (map_option oid (find (\<lambda>e. path e = c) tree0)) rest X = (s1, Inr sub)"
    by (rule upsertTree_Cons_Inr) blast
  from rd have t0: "tree0 = []" by simp
  show ?case
  proof (cases "readTree s'' h")
    case (Inl e)
    then show ?thesis by (simp add: q)
  next
    case (Inr es)
    then have es: "es = [new]" using h t0 by (auto simp: readTree_def split: if_splits)
    show ?thesis
    proof (cases "y = c")
      case False
      with Inr es new show ?thesis by (simp add: q)
    next
      case True
      with Cons.prems(2,3) q have ne: "rest \<noteq> []" "q' \<noteq> []" "\<not> prefix q' rest" "\<not> prefix rest q'"
        by auto
      from new(2)[OF ne(1)] t0 obtain sub where
        sub: "new = Entry ''040000'' c sub TTree" "upsertTree s None rest X = (s1, Inr sub)"
        by auto
      have "walkParts s'' tq \<lparr>sha = sub, tmode = Some ''040000'', ttype = TTree\<rparr> c q' \<noteq> Inr r"
        by (rule Cons.IH[OF sub(2) ne(3,4)])
      with Inr es sub True show ?thesis by (simp add: q)
    qed
  qed
qed

lemma upsert_frame:
  "validTree s (HTree es) \<Longrightarrow> upsertTree s (Some (HTree es)) parts X = (s', Inr h) \<Longrightarrow>
   s' \<subseteq> s'' \<Longrightarrow> \<not> prefix q parts \<Longrightarrow> \<not> prefix parts q \<Longrightarrow>
   (walkParts s'' tq \<lparr>sha = h, tmode = m, ttype = TTree\<rparr> prev q = Inr r) =
   (walkParts s tq \<lparr>sha = HTree es, tmode = m', ttype = TTree\<rparr> prev' q = Inr r)"
proof (induction parts arbitrary: s es s' s'' h q m m' prev prev')
  case Nil
  then show ?case by simp
next
  case (Cons c rest)
  from Cons.prems(4) obtain y q' where q: "q = y # q'" by (cases q) auto
  from Cons.prems(2) obtain tree0 new s1 where
    rd: "(case Some (HTree es) of None \<Rightarrow> Inr [] | Some t \<Rightarrow> readTree s t) = Inr tree0"
    and h: "h = HTree (sort_key path (filter (\<lambda>e. path e \<noteq> c) tree0 @ [new]))"
    and s': "s' = insert h s1" "s \<subseteq> s1"
    and new: "path new = c"
      "rest \<noteq> [] \<Longrightarrow> \<exists>sub. new = Entry ''040000'' c sub TTree \<and>
        upsertTree s (map_option oid (find (\<lambda>e. path e = c) tree0)) rest X = (s1, Inr sub)"
    by (rule upsertTree_Cons_Inr) blast
  from rd have t0: "tree0 = es" and rds: "readTree s (HTree es) = Inr es"
    by (auto simp: readTree_def split: if_splits)
  from h s' Cons.prems(3) have rdh: "readTree s'' h = Inr (sort_key path (filter (\<lambda>e. path e \<noteq> c) es @ [new]))"
    by (auto simp: readTree_def t0)
  from s' Cons.prems(3) have sub_s: "s \<subseteq> s''" "s1 \<subseteq> s''" by auto
  show ?case
  proof (cases "y = c")
    case False
    show ?thesis
    proof (cases "find (\<lambda>e. path e = y) es")
      case None
      with False rdh rds new(1) show ?thesis by (simp add: q find_other)
    next
      case (Some e)
      then have "e \<in> set es" by (auto simp: find_Some_iff)
      with Cons.prems(1) have ok: "entryOk e" "validTree s (oid e)"
        using validTree_entry[of s es e] by simp_all
      have kind: "(type e = TTree) = (\<exists>es'. oid e = HTree es')"
        using ok(1) by (cases "type e"; cases "oid e") (auto simp: entryOk_def)
      have "walkParts s'' tq \<lparr>sha = oid e, tmode = Some (mode e), ttype = type e\<rparr> y q'
              = walkParts s tq \<lparr>sha = oid e, tmode = Some (mode e), ttype = type e\<rparr> y q'"
        by (rule walkParts_closed) (use ok kind sub_s in simp_all)
      with False rdh rds new(1) Some show ?thesis by (simp add: q find_other)
    qed
  next
    case True
    with Cons.prems(4,5) q have ne: "rest \<noteq> []" "q' \<noteq> []" "\<not> prefix q' rest" "\<not> prefix rest q'"
      by auto
    from new(2)[OF ne(1)] t0 obtain sub where
      sub: "new = Entry ''040000'' c sub TTree"
        "upsertTree s (map_option oid (find (\<lambda>e. path e = c) es)) rest X = (s1, Inr sub)"
      by auto
    have neww: "walkParts s'' tq \<lparr>sha = h, tmode = m, ttype = TTree\<rparr> prev q
                  = walkParts s'' tq \<lparr>sha = sub, tmode = Some ''040000'', ttype = TTree\<rparr> c q'"
      using rdh new(1) sub(1) True by (simp add: q find_same)
    show ?thesis
    proof (cases "find (\<lambda>e. path e = c) es")
      case None
      with sub(2) have "walkParts s'' tq \<lparr>sha = sub, tmode = Some ''040000'', ttype = TTree\<rparr> c q' \<noteq> Inr r"
        by (intro upsert_fresh_frame[OF _ ne(3,4)]) simp
      with None rds True show ?thesis unfolding neww by (simp add: q)
    next
      case (Some e)
      then have "e \<in> set es" by (auto simp: find_Some_iff)
      with Cons.prems(1) have ok: "entryOk e" "validTree s (oid e)"
        using validTree_entry[of s es e] by simp_all
      from sub(2) Some obtain es2 where es2: "oid e = HTree es2"
        using ne(1) by (cases rest; cases "oid e") (auto simp: readTree_def split: if_splits)
      with ok have te: "type e = TTree" by (auto simp: entryOk_def)
      have "(walkParts s'' tq \<lparr>sha = sub, tmode = Some ''040000'', ttype = TTree\<rparr> c q' = Inr r) =
            (walkParts s tq \<lparr>sha = HTree es2, tmode = Some (mode e), ttype = TTree\<rparr> c q' = Inr r)"
        by (rule Cons.IH[OF _ _ sub_s(2) ne(3,4)]) (use ok es2 sub(2) Some in simp_all)
      with Some rds True te es2 show ?thesis unfolding neww by (simp add: q)
    qed
  qed
qed

lemma sort_key_canonical:
  assumes "mset L = mset es" "distinct (map path es)" "sorted (map path es)"
  shows "sort_key path L = es"
proof -
  have "set L = set es" using assms(1) by (rule mset_eq_setD)
  with assms(2) have "inj_on path (set L)" by (simp add: distinct_map)
  with assms(1) show ?thesis using assms(3) by (rule sort_key_inj_key_eq)
qed

lemma findIndex_unique:
  assumes "new \<in> set zs" "P new" "\<And>z. z \<in> set zs \<Longrightarrow> P z \<Longrightarrow> z = new"
  obtains i where "findIndex P zs = Some i" "i < length zs" "zs ! i = new"
proof -
  from assms(1,2) obtain i where i: "findIndex P zs = Some i"
    by (cases "findIndex P zs") (auto simp: findIndex_None)
  from findIndex_Some[OF i] have "i < length zs" "P (zs ! i)" by simp_all
  with assms(3)[of "zs ! i"] i show thesis by (intro that[of i]) auto
qed

lemma mset_splice1: "i < length zs \<Longrightarrow> mset (splice1 i zs) = mset zs - {#zs ! i#}"
proof -
  assume i: "i < length zs"
  have "mset zs = mset (take i zs @ zs ! i # drop (Suc i) zs)"
    using i by (simp add: id_take_nth_drop[symmetric])
  then show ?thesis by (simp add: splice1_def)
qed

lemma filter_path_unique:
  "distinct (map path es) \<Longrightarrow> e \<in> set es \<Longrightarrow> filter (\<lambda>x. path x = path e) es = [e]"
proof (induction es)
  case Nil
  then show ?case by simp
next
  case (Cons a es)
  then show ?case by (auto simp: image_iff filter_empty_conv)
qed

lemma mset_without_name:
  assumes "distinct (map path es)" "e \<in> set es"
  shows "mset es = add_mset e (mset (filter (\<lambda>x. path x \<noteq> path e) es))"
proof -
  have "mset es = mset (filter (\<lambda>x. path x = path e) es) + mset (filter (\<lambda>x. \<not> path x = path e) es)"
    by (simp only: mset_filter multiset_partition[symmetric])
  then show ?thesis by (simp add: filter_path_unique[OF assms])
qed

lemma filter_absent_name: "c \<notin> path ` set es \<Longrightarrow> filter (\<lambda>x. path x \<noteq> c) es = es"
  by (induction es) auto

text \<open>The tree that an upsert writes at one level, read back for the removal.\<close>

lemma written_level:
  assumes "path new = c" "zs = sort_key path (filter (\<lambda>e. path e \<noteq> c) es @ [new])"
  obtains i where "findIndex (\<lambda>e. path e = c) zs = Some i" "i < length zs" "zs ! i = new"
    "mset zs - {#zs ! i#} = mset (filter (\<lambda>e. path e \<noteq> c) es)"
proof -
  have m: "mset zs = add_mset new (mset (filter (\<lambda>e. path e \<noteq> c) es))"
    by (simp add: assms(2))
  have s: "set zs = insert new (set (filter (\<lambda>e. path e \<noteq> c) es))"
    by (simp add: assms(2))
  have mem: "new \<in> set zs"
    by (simp add: s)
  have uniq: "z = new" if "z \<in> set zs" "path z = c" for z
    using that by (auto simp: s)
  obtain i where i: "findIndex (\<lambda>e. path e = c) zs = Some i" "i < length zs" "zs ! i = new"
    by (rule findIndex_unique[of new zs "\<lambda>e. path e = c", OF mem assms(1) uniq])
  have "mset zs - {#zs ! i#} = mset (filter (\<lambda>e. path e \<noteq> c) es)"
    by (simp add: m i(3))
  with i show thesis by (rule that)
qed

lemma upsert_None_succeeds:
  "parts \<noteq> [] \<Longrightarrow> \<exists>s1 h. upsertTree s None parts X = (s1, Inr h)"
proof (induction parts arbitrary: s)
  case Nil
  then show ?case by simp
next
  case (Cons c rest)
  show ?case
  proof (cases "rest = []")
    case True
    then show ?thesis by (simp add: writeTree_eq)
  next
    case False
    then obtain s1 sub where "upsertTree s None rest X = (s1, Inr sub)"
      using Cons.IH by blast
    with False show ?thesis by (simp add: writeTree_eq)
  qed
qed

text \<open>Directories that an upsert created afresh are pruned away by the removal of the path.\<close>

lemma remove_fresh_chain:
  "upsertTree s None parts X = (s1, Inr h1) \<Longrightarrow> s1 \<subseteq> s2 \<Longrightarrow>
   removeTreeEntry s2 h1 parts = (s2, Inr None)"
proof (induction parts arbitrary: s s1 h1)
  case Nil
  then show ?case by simp
next
  case (Cons c rest)
  from Cons.prems(1) obtain tree0 new sa where
    rd: "(case None of None \<Rightarrow> Inr [] | Some t \<Rightarrow> readTree s t) = Inr tree0"
    and h: "h1 = HTree (sort_key path (filter (\<lambda>e. path e \<noteq> c) tree0 @ [new]))"
    and s1: "s1 = insert h1 sa"
    and new: "path new = c"
      "rest \<noteq> [] \<Longrightarrow> \<exists>sub. new = Entry ''040000'' c sub TTree \<and>
        upsertTree s (map_option oid (find (\<lambda>e. path e = c) tree0)) rest X = (sa, Inr sub)"
    by (rule upsertTree_Cons_Inr) blast
  from rd h have h1: "h1 = HTree [new]" by simp
  with s1 Cons.prems(2) have rd2: "readTree s2 h1 = Inr [new]"
    by (auto simp: readTree_def)
  have ix: "findIndex (\<lambda>e. path e = c) [new] = Some 0"
    using new(1) by simp
  show ?case
  proof (cases "rest = []")
    case True
    show ?thesis
      unfolding True removeTreeEntry_last[OF rd2 ix]
      by (simp add: finishRemove_eq splice1_def)
  next
    case False
    from new(2)[OF False] rd obtain sub where
      sub: "new = Entry ''040000'' c sub TTree" "upsertTree s None rest X = (sa, Inr sub)"
      by auto
    have rec: "removeTreeEntry s2 sub rest = (s2, Inr None)"
      by (rule Cons.IH[OF sub(2)]) (use s1 Cons.prems(2) in auto)
    have ty: "type ([new] ! 0) = TTree" and ob: "oid ([new] ! 0) = sub"
      using sub(1) by simp_all
    show ?thesis
      unfolding removeTreeEntry_step[OF rd2 ix ty False] ob rec
      by (simp add: finishRemove_eq splice1_def)
  qed
qed

lemma finishRemove_restores:
  assumes "mset L = mset es" "distinct (map path es)" "sorted (map path es)" "HTree es \<in> s2"
  shows "finishRemove s2 L = (s2, Inr (if es = [] then None else Some (HTree es)))"
proof (cases "es = []")
  case True
  with assms(1) show ?thesis by (simp add: finishRemove_eq)
next
  case False
  with assms(1) have "L \<noteq> []" by auto
  with False assms(4) show ?thesis
    by (simp add: finishRemove_eq sort_key_canonical[OF assms(1-3)] insert_absorb)
qed

lemma remove_upsert:
  "validTree s (HTree es) \<Longrightarrow>
   walkParts s tp \<lparr>sha = HTree es, tmode = m, ttype = TTree\<rparr> prev parts = Inl (PathNotFound tp x) \<Longrightarrow>
   \<exists>s1 h1. upsertTree s (Some (HTree es)) parts X = (s1, Inr h1) \<and>
     (\<forall>s2. s1 \<subseteq> s2 \<longrightarrow>
        removeTreeEntry s2 h1 parts = (s2, Inr (if es = [] then None else Some (HTree es))))"
proof (induction parts arbitrary: s es m prev)
  case Nil
  then show ?case by simp
next
  case (Cons c rest)
  from Cons.prems(1) have rd: "readTree s (HTree es) = Inr es"
    and can: "distinct (map path es)" "sorted (map path es)" and mem: "HTree es \<in> s"
    by (simp_all add: readTree_def)
  show ?case
  proof (cases "find (\<lambda>e. path e = c) es")
    case None
    then have absent: "filter (\<lambda>e. path e \<noteq> c) es = es"
      by (intro filter_absent_name) (auto simp: find_None_iff)
    obtain sa new where up: "upsertTree s (Some (HTree es)) (c # rest) X
          = (insert (HTree (sort_key path (es @ [new]))) sa, Inr (HTree (sort_key path (es @ [new]))))"
      and new: "path new = c" "s \<subseteq> sa"
        "rest \<noteq> [] \<Longrightarrow> \<exists>sub. new = Entry ''040000'' c sub TTree \<and> upsertTree s None rest X = (sa, Inr sub)"
    proof (cases "rest = []")
      case True
      show ?thesis
        by (rule that[of "Entry ''100644'' c X TBlob" s]) (simp_all add: True rd absent writeTree_eq)
    next
      case False
      then obtain sa sub where sub: "upsertTree s None rest X = (sa, Inr sub)"
        using upsert_None_succeeds by blast
      then have "s \<subseteq> sa" by (rule upsertTree_store_mono)
      with sub show ?thesis
        by (intro that[of "Entry ''040000'' c sub TTree" sa])
           (simp_all add: False rd absent None writeTree_eq)
    qed
    let ?zs = "sort_key path (es @ [new])"
    have "removeTreeEntry s2 (HTree ?zs) (c # rest) = (s2, Inr (if es = [] then None else Some (HTree es)))"
      if s2: "insert (HTree ?zs) sa \<subseteq> s2" for s2
    proof -
      have rd2: "readTree s2 (HTree ?zs) = Inr ?zs"
        using s2 by (auto simp: readTree_def)
      obtain i where i: "findIndex (\<lambda>e. path e = c) ?zs = Some i" "i < length ?zs" "?zs ! i = new"
        "mset ?zs - {#?zs ! i#} = mset (filter (\<lambda>e. path e \<noteq> c) es)"
        by (rule written_level[OF new(1), of ?zs es]) (simp add: absent)
      have "mset (splice1 i ?zs) = mset es"
        using i(2,4) by (simp add: mset_splice1 absent)
      then have fin: "finishRemove s2 (splice1 i ?zs) = (s2, Inr (if es = [] then None else Some (HTree es)))"
        using can by (rule finishRemove_restores) (use mem new(2) s2 in auto)
      show ?thesis
      proof (cases "rest = []")
        case True
        show ?thesis
          unfolding True removeTreeEntry_last[OF rd2 i(1)] fin ..
      next
        case False
        from new(3)[OF False] obtain sub where
          sub: "new = Entry ''040000'' c sub TTree" "upsertTree s None rest X = (sa, Inr sub)"
          by auto
        have rec: "removeTreeEntry s2 sub rest = (s2, Inr None)"
          by (rule remove_fresh_chain[OF sub(2)]) (use s2 in auto)
        have ty: "type (?zs ! i) = TTree" and ob: "oid (?zs ! i) = sub"
          using sub(1) i(3) by simp_all
        show ?thesis
          unfolding removeTreeEntry_step[OF rd2 i(1) ty False] ob rec
          using fin by simp
      qed
    qed
    with up show ?thesis by blast
  next
    case (Some e)
    then have e: "e \<in> set es" "path e = c"
      by (auto simp: find_Some_iff)
    have ok: "entryOk e" "validTree s (oid e)"
      using validTree_entry[OF Cons.prems(1) e(1)] by simp_all
    from Cons.prems(2) rd Some have ne: "rest \<noteq> []" and te: "type e = TTree"
      and w: "walkParts s tp \<lparr>sha = oid e, tmode = Some (mode e), ttype = TTree\<rparr> c rest
                = Inl (PathNotFound tp x)"
      by (cases rest; cases "type e"; simp)+
    from entryOk_tree[OF ok(1) te] obtain es2 where
      es2: "oid e = HTree es2" "es2 \<noteq> []" "mode e = ''040000''"
      by blast
    have "\<exists>s1 h1. upsertTree s (Some (HTree es2)) rest X = (s1, Inr h1) \<and>
        (\<forall>s2. s1 \<subseteq> s2 \<longrightarrow>
           removeTreeEntry s2 h1 rest = (s2, Inr (if es2 = [] then None else Some (HTree es2))))"
      by (rule Cons.IH) (use ok(2) w es2(1) in simp_all)
    then obtain sa sub where sub: "upsertTree s (Some (HTree es2)) rest X = (sa, Inr sub)"
      and undo: "\<And>s2. sa \<subseteq> s2 \<Longrightarrow> removeTreeEntry s2 sub rest = (s2, Inr (Some (HTree es2)))"
      using es2(2) by auto
    from sub have ssa: "s \<subseteq> sa" by (rule upsertTree_store_mono)
    let ?new = "Entry ''040000'' c sub TTree"
    let ?zs = "sort_key path (filter (\<lambda>e. path e \<noteq> c) es @ [?new])"
    have up: "upsertTree s (Some (HTree es)) (c # rest) X = (insert (HTree ?zs) sa, Inr (HTree ?zs))"
      using sub by (simp add: ne rd Some es2(1) writeTree_eq Let_def)
    have "removeTreeEntry s2 (HTree ?zs) (c # rest) = (s2, Inr (if es = [] then None else Some (HTree es)))"
      if s2: "insert (HTree ?zs) sa \<subseteq> s2" for s2
    proof -
      have rd2: "readTree s2 (HTree ?zs) = Inr ?zs"
        using s2 by (auto simp: readTree_def)
      obtain i where i: "findIndex (\<lambda>e. path e = c) ?zs = Some i" "i < length ?zs" "?zs ! i = ?new"
        "mset ?zs - {#?zs ! i#} = mset (filter (\<lambda>e. path e \<noteq> c) es)"
        by (rule written_level[of ?new c ?zs es]) simp_all
      have rec: "removeTreeEntry s2 sub rest = (s2, Inr (Some (HTree es2)))"
        by (rule undo) (use s2 in auto)
      have ty: "type (?zs ! i) = TTree" and ob: "oid (?zs ! i) = sub"
        using i(3) by simp_all
      have "setOid i (HTree es2) ?zs = ?zs[i := e]"
        unfolding setOid_def i(3) using entry_eq_tree[OF e(2) te es2(3) es2(1)] by simp
      then have "mset (setOid i (HTree es2) ?zs) = add_mset e (mset (filter (\<lambda>x. path x \<noteq> path e) es))"
        using i(2,4) by (simp add: mset_update e(2))
      also have "\<dots> = mset es"
        by (rule mset_without_name[OF can(1) e(1), symmetric])
      finally have fin: "finishRemove s2 (setOid i (HTree es2) ?zs)
                           = (s2, Inr (if es = [] then None else Some (HTree es)))"
        using can by (rule finishRemove_restores) (use mem ssa s2 in auto)
      show ?thesis
        unfolding removeTreeEntry_step[OF rd2 i(1) ty ne] ob rec
        using fin by simp
    qed
    with up show ?thesis by blast
  qed
qed

text \<open>
  On a well-formed tree of the store the upsert fails exactly when the walk to
  the path would have to pass through a file.
\<close>

lemma upsertTree_succeeds_iff:
  "validTree s (HTree es) \<Longrightarrow> parts \<noteq> [] \<Longrightarrow>
   (\<exists>s' h. upsertTree s (Some (HTree es)) parts X = (s', Inr h)) =
   (\<forall>x. walkParts s tp \<lparr>sha = HTree es, tmode = m, ttype = TTree\<rparr> prev parts \<noteq> Inl (IsAFile x))"
proof (induction parts arbitrary: es m prev)
  case Nil
  then show ?case by simp
next
  case (Cons c rest)
  from Cons.prems(1) have rd: "readTree s (HTree es) = Inr es"
    by (simp add: readTree_def)
  show ?case
  proof (cases "rest = []")
    case True
    with rd show ?thesis
      by (cases "find (\<lambda>e. path e = c) es") (simp_all add: writeTree_eq Let_def)
  next
    case False
    show ?thesis
    proof (cases "find (\<lambda>e. path e = c) es")
      case None
      from upsert_None_succeeds[OF False, of s X] obtain sa sub where
        "upsertTree s None rest X = (sa, Inr sub)" by blast
      with None rd False show ?thesis
        by (simp add: writeTree_eq Let_def)
    next
      case (Some e)
      then have "e \<in> set es" by (auto simp: find_Some_iff)
      then have ok: "entryOk e" "validTree s (oid e)"
        using validTree_entry[OF Cons.prems(1)] by simp_all
      obtain q rest' where rest: "rest = q # rest'"
        using False by (cases rest) auto
      show ?thesis
      proof (cases "oid e")
        case (HBlob content)
        with ok have "type e = TBlob" by (simp add: entryOk_def)
        moreover have "upsertTree s (Some (HBlob content)) rest X = (s, Inl (ObjectTypeError (HBlob content)))"
          using ok(2) HBlob by (simp add: rest readTree_def)
        ultimately show ?thesis
          using Some rd False HBlob by (simp add: Let_def rest)
      next
        case (HTree es2)
        with ok have te: "type e = TTree" by (simp add: entryOk_def)
        have IH: "(\<exists>s' h. upsertTree s (Some (HTree es2)) rest X = (s', Inr h)) =
            (\<forall>x. walkParts s tp \<lparr>sha = HTree es2, tmode = Some (mode e), ttype = TTree\<rparr> c rest \<noteq> Inl (IsAFile x))"
          by (rule Cons.IH) (use ok(2) HTree False in simp_all)
        have up: "(\<exists>s' h. upsertTree s (Some (HTree es)) (c # rest) X = (s', Inr h)) =
                  (\<exists>s' h. upsertTree s (Some (HTree es2)) rest X = (s', Inr h))"
          using Some rd False HTree
          by (cases "upsertTree s (Some (HTree es2)) rest X"; cases "snd (upsertTree s (Some (HTree es2)) rest X)")
             (simp_all add: Let_def writeTree_eq)
        have wk: "walkParts s tp \<lparr>sha = HTree es, tmode = m, ttype = TTree\<rparr> prev (c # rest)
                  = walkParts s tp \<lparr>sha = HTree es2, tmode = Some (mode e), ttype = TTree\<rparr> c rest"
          using Some rd te HTree by simp
        show ?thesis unfolding up wk by (rule IH)
      qed
    qed
  qed
qed

section \<open>Failure of the merge\<close>

lemma mergeLoop_append:
  "mergeLoop res s be oe te (qs @ rs) acc =
     (case mergeLoop res s be oe te qs acc of
        (s1, Inl e) \<Rightarrow> (s1, Inl e)
      | (s1, Inr acc1) \<Rightarrow> mergeLoop res s1 be oe te rs acc1)"
proof (induction qs arbitrary: s acc)
  case Nil
  show ?case by simp
next
  case (Cons q qs)
  show ?case
    unfolding append_Cons mergeLoop_step
    by (simp add: Cons.IH split: prod.splits sum.splits option.splits)
qed

lemma mergeLoop_conflict:
  "\<not> isTree (mapGet oe p) \<Longrightarrow> \<not> isTree (mapGet te p) \<Longrightarrow> shaOf oe p \<noteq> shaOf te p \<Longrightarrow>
   shaOf oe p \<noteq> shaOf be p \<Longrightarrow> shaOf te p \<noteq> shaOf be p \<Longrightarrow> \<not> truthy (getProperty res p) \<Longrightarrow>
   mergeLoop res s be oe te (p # ps) acc = (s, Inl (MergeConflict p))"
  by simp

lemma mergeLoop_dir_fails:
  "isTree (mapGet oe d) \<or> isTree (mapGet te d) \<Longrightarrow>
   mergeTrees res s (shaOf be d) (shaOf oe d) (shaOf te d) = (s', Inl e) \<Longrightarrow>
   mergeLoop res s be oe te (d # ps) acc = (s', Inl e)"
  by simp

lemma mergeTrees_loop_fails:
  "readEntries s b = Inr be \<Longrightarrow> readEntries s ou = Inr oe \<Longrightarrow> readEntries s t = Inr te \<Longrightarrow>
   mergeLoop res s be oe te (allPaths be oe te) [] = (s', Inl e) \<Longrightarrow>
   mergeTrees res s b ou t = (s', Inl e)"
  unfolding mergeTrees.simps[of res s b ou t] by simp

section \<open>The merged tree, name by name\<close>












section \<open>Claims\<close>

text \<open>
  C10.  Every blob entry that the write operations create is a regular file of
  mode 100644.  After an upsert the entry read back at the path has mode 100644
  whatever was there before, an executable file included; and every blob entry
  of a merged tree that is not taken over from ours or theirs is a resolved
  conflict of mode 100644 holding the resolution's content.
\<close>

theorem written_blob_entries_regular:
  "(upsertTree su T parts X = (su', Inr h) \<longrightarrow>
      resolveParts su' h tp parts = Inr \<lparr>sha = X, tmode = Some ''100644'', ttype = TBlob\<rparr>) \<and>
   (mergeTrees res sm b ou t = (sm', Inr (Some r)) \<longrightarrow>
      (\<forall>e \<in> set (treeEntries (Some r)).
         type e = TBlob \<longrightarrow> e \<in> set (treeEntries ou) \<or> e \<in> set (treeEntries t) \<or>
           (mode e = ''100644'' \<and> oid e = HBlob (the (res (path e))))))"
proof (intro conjI impI)
  assume "upsertTree su T parts X = (su', Inr h)"
  then show "resolveParts su' h tp parts = Inr \<lparr>sha = X, tmode = Some ''100644'', ttype = TBlob\<rparr>"
    unfolding resolveParts_def by (rule upsertTree_readback)
next
  assume "mergeTrees res sm b ou t = (sm', Inr (Some r))"
  from mergeTrees_origin[OF this]
  show "\<forall>e \<in> set (treeEntries (Some r)).
         type e = TBlob \<longrightarrow> e \<in> set (treeEntries ou) \<or> e \<in> set (treeEntries t) \<or>
           (mode e = ''100644'' \<and> oid e = HBlob (the (res (path e))))"
    by (auto simp: treeEntries_def freshEntry_def)
qed

theorem written_blob_entries_regular_witness:
  "upsertTree exStoreU (Some exExec) [''run.sh''] (HBlob ''new'')
     = (insert exUpserted exStoreU, Inr exUpserted) \<and>
   resolveParts (insert exUpserted exStoreU) exUpserted ''run.sh'' [''run.sh'']
     = Inr \<lparr>sha = HBlob ''new'', tmode = Some ''100644'', ttype = TBlob\<rparr> \<and>
   mergeTrees [''README.md'' \<mapsto> ''Both''] exStoreM (Some exBase) (Some exOurs) (Some exTheirs)
     = (insert exMerged (insert (HBlob ''Both'') exStoreM), Inr (Some exMerged)) \<and>
   exResolved \<in> set (treeEntries (Some exMerged)) \<and>
   exResolved \<notin> set (treeEntries (Some exOurs)) \<and>
   exResolved \<notin> set (treeEntries (Some exTheirs)) \<and>
   mode exResolved = ''100644'' \<and> oid exResolved = HBlob ''Both''"
proof -
  have u: "upsertTree exStoreU (Some exExec) [''run.sh''] (HBlob ''new'')
             = (insert exUpserted exStoreU, Inr exUpserted)"
    by code_simp
  have m: "mergeTrees [''README.md'' \<mapsto> ''Both''] exStoreM (Some exBase) (Some exOurs) (Some exTheirs)
             = (insert exMerged (insert (HBlob ''Both'') exStoreM), Inr (Some exMerged))"
    by code_simp
  have e: "exResolved \<in> set (treeEntries (Some exMerged))" "type exResolved = TBlob"
    "exResolved \<notin> set (treeEntries (Some exOurs))" "exResolved \<notin> set (treeEntries (Some exTheirs))"
    "the ([''README.md'' \<mapsto> ''Both''] (path exResolved)) = ''Both''"
    by code_simp+
  note all = written_blob_entries_regular[where su=exStoreU and T="Some exExec" and parts="[''run.sh'']"
        and X="HBlob ''new''" and su'="insert exUpserted exStoreU" and h=exUpserted
        and tp="''run.sh''" and res="[''README.md'' \<mapsto> ''Both'']" and sm=exStoreM
        and b="Some exBase" and ou="Some exOurs" and t="Some exTheirs"
        and sm'="insert exMerged (insert (HBlob ''Both'') exStoreM)" and r=exMerged]
  from all u have r: "resolveParts (insert exUpserted exStoreU) exUpserted ''run.sh'' [''run.sh'']
     = Inr \<lparr>sha = HBlob ''new'', tmode = Some ''100644'', ttype = TBlob\<rparr>"
    by blast
  from all m e have "mode exResolved = ''100644'' \<and> oid exResolved = HBlob (the ([''README.md'' \<mapsto> ''Both''] (path exResolved)))"
    by blast
  with e(5) have "mode exResolved = ''100644''" "oid exResolved = HBlob ''Both''"
    by simp_all
  with u m r e show ?thesis by simp
qed

text \<open>
  C7, as amended.  For well-formed trees \<open>B\<close> and \<open>T\<close> of the store
  that agree, wherever both have a name, on its being a directory or a file,
  and with \<open>T\<close> not empty: the merge of base \<open>B\<close>, ours \<open>T\<close>,
  theirs \<open>B\<close> returns exactly \<open>T\<close> and writes nothing; and when
  moreover the two trees give equal objects equal modes, the merge of base
  \<open>B\<close>, ours \<open>B\<close>, theirs \<open>T\<close> returns exactly \<open>T\<close>.
\<close>

theorem merge_fast_forward_no_op:
  assumes "validTree s (HTree bs)" and "validTree s (HTree ts)" and "ts \<noteq> []"
    and "kindsAgree (HTree bs) (HTree ts)"
  shows "mergeTrees res s (Some (HTree bs)) (Some (HTree ts)) (Some (HTree bs))
           = (s, Inr (Some (HTree ts))) \<and>
         (modesAgree (HTree bs) (HTree ts) \<longrightarrow>
            mergeTrees res s (Some (HTree bs)) (Some (HTree bs)) (Some (HTree ts))
              = (s, Inr (Some (HTree ts))))"
  using merge_no_op[OF assms(1,2) refl refl assms(3,4)]
        merge_fast_forward[OF assms(1,2) refl refl assms(3,4)]
  by simp

theorem merge_fast_forward_no_op_witness:
  "validTree exStore exBase \<and> validTree exStore exTheirs \<and> kindsAgree exBase exTheirs \<and>
   modesAgree exBase exTheirs \<and>
   mergeTrees Map.empty exStore (Some exBase) (Some exTheirs) (Some exBase)
     = (exStore, Inr (Some exTheirs)) \<and>
   mergeTrees Map.empty exStore (Some exBase) (Some exBase) (Some exTheirs)
     = (exStore, Inr (Some exTheirs))"
proof -
  have v: "validTree exStore exBase" "validTree exStore exTheirs"
    and k: "kindsAgree exBase exTheirs" and m: "modesAgree exBase exTheirs"
    by code_simp+
  have b: "exBase = HTree [exReadme, Entry ''040000'' ''src'' exSrc TTree]"
    by (simp add: exBase_def)
  have t: "exTheirs = HTree [Entry ''100644'' ''README.md'' (HBlob ''Hello!'') TBlob,
                     Entry ''040000'' ''docs'' exDocs TTree,
                     Entry ''040000'' ''src'' exSrc2 TTree]"
    by (simp add: exTheirs_def)
  show ?thesis
    using v k m merge_fast_forward_no_op[of exStore _ _ Map.empty, OF v[unfolded b t] _ k[unfolded b t]]
    unfolding b t by simp
qed

text \<open>
  The claim as stated fails in three ways: an empty \<open>T\<close> is answered by
  the marker for absence, a change of mode alone is lost by the fast-forward,
  and a file that became a directory makes the merge fail.
\<close>

theorem merge_fast_forward_counterexample:
  "mergeTrees Map.empty {exPlain, HTree [], HBlob ''go''} (Some exPlain) (Some exPlain) (Some (HTree []))
     = ({exPlain, HTree [], HBlob ''go''}, Inr None) \<and>
   mergeTrees Map.empty {exPlain, exExec, HBlob ''go''} (Some exPlain) (Some exPlain) (Some exExec)
     = ({exPlain, exExec, HBlob ''go''}, Inr (Some exPlain)) \<and>
   exExec \<noteq> exPlain \<and>
   mergeTrees Map.empty {exPlain, exAsDir, exDocs, HBlob ''go'', HBlob ''x''}
       (Some exPlain) (Some exPlain) (Some exAsDir)
     = ({exPlain, exAsDir, exDocs, HBlob ''go'', HBlob ''x''}, Inl (ObjectTypeError (HBlob ''go'')))"
  by code_simp




text \<open>
  C2.  The claim holds the upsert to succeed on every tree, a file met at a
  segment before the last being replaced by a directory.  The code passes the
  file's identifier on as the tree to descend into, and reading it as a tree
  fails: the upsert of \<^verbatim>\<open>a/b\<close> into a tree whose \<^verbatim>\<open>a\<close> is a file.
\<close>

theorem upsert_through_blob_fails:
  "upsertTree {exFileA, HBlob ''x'', HBlob ''new''} (Some exFileA) [''a'', ''b''] (HBlob ''new'')
     = ({exFileA, HBlob ''x'', HBlob ''new''}, Inl (ObjectTypeError (HBlob ''x'')))"
  by code_simp

text \<open>
  C1.  The merge flow moves the destination ref without comparing it with the
  commit it read at its start: when another writer has moved \<^verbatim>\<open>main\<close>
  in between, the merge commit replaces that writer's commit, which is not
  among its parents.
\<close>

theorem merge_overwrites_moved_ref:
  "resolveRef exRepo ''main'' = Inr exC0 \<and>
   resolveRef (exPush exRepo) ''main'' = Inr exCX \<and>
   snd (mergeMain (\<lambda>d s. [exC0]) exPush 4 Map.empty exRepo ''feature'' ''main'') = Inr exMergeCommit \<and>
   refs (fst (mergeMain (\<lambda>d s. [exC0]) exPush 4 Map.empty exRepo ''feature'' ''main'')) ''refs/heads/main''
     = Some exMergeCommit \<and>
   exCX \<notin> set (parent exMergeCommit)"
  by code_simp

text \<open>The add and the remove flow refuse the same interleaving and leave the ref alone.\<close>

lemma sibling_flows_detect_moved_ref:
  "snd (addFileMain exPush 4 exRepo ''main'' ''src/b.txt'' ''2'') = Inl (ConcurrencyError ''main'')"
  "refs (fst (addFileMain exPush 4 exRepo ''main'' ''src/b.txt'' ''2'')) ''refs/heads/main'' = Some exCX"
  "snd (removeFileMain exPush 4 exRepo ''main'' ''src/a.txt'') = Inl (ConcurrencyError ''main'')"
  "refs (fst (removeFileMain exPush 4 exRepo ''main'' ''src/a.txt'')) ''refs/heads/main'' = Some exCX"
  by code_simp+

text \<open>
  C5.  A removal never writes an empty tree.  When the entry list of a level
  becomes empty the marker is returned and nothing is written at that level or
  below; the frame above deletes its own entry for the child rather than
  updating it, becomes empty in turn or writes what is left; and only when the
  marker reaches the root is the explicit empty tree written and returned:
  a tree that the removal returns is not empty and is the new root as it is,
  and a failure of the removal is the failure of the whole.  So removing the
  only file of a directory answers the marker, and the tree written by the
  frame above, the names of a tree being unique, has no entry under the name
  of the child and every other entry as before.
\<close>

theorem remove_prunes_empty_directories:
  "(removeTreeEntry s h parts = (s', Inr None) \<longrightarrow> s' = s) \<and>
   (removeTreeEntry s h parts = (s', out) \<longrightarrow> HTree [] \<in> s' \<longrightarrow> HTree [] \<in> s) \<and>
   (readTree s h = Inr es \<and> findIndex (\<lambda>e. path e = d) es = Some i \<and> type (es ! i) = TTree \<and>
    rest \<noteq> [] \<and> removeTreeEntry s (oid (es ! i)) rest = (sc, Inr None) \<longrightarrow>
      removeTreeEntry s h (d # rest) =
        (if splice1 i es = [] then (s, Inr None)
         else (insert (HTree (sort_key path (splice1 i es))) s,
               Inr (Some (HTree (sort_key path (splice1 i es))))))) \<and>
   (readTree s h = Inr es \<and> findIndex (\<lambda>e. path e = d) es = Some i \<longrightarrow>
      removeTreeEntry s h [d] =
        (if splice1 i es = [] then (s, Inr None)
         else (insert (HTree (sort_key path (splice1 i es))) s,
               Inr (Some (HTree (sort_key path (splice1 i es))))))) \<and>
   (removeTreeEntry s h parts = (s', Inr None) \<longrightarrow>
      removeRoot s h parts = (insert (HTree []) s, Inr (HTree []))) \<and>
   (removeTreeEntry s h parts = (s', Inr (Some h')) \<longrightarrow>
      removeRoot s h parts = (s', Inr h') \<and> h' \<noteq> HTree []) \<and>
   (removeTreeEntry s h parts = (s', Inl err) \<longrightarrow> removeRoot s h parts = (s', Inl err)) \<and>
   (readTree s h = Inr [only] \<and> path only = d \<longrightarrow> removeTreeEntry s h [d] = (s, Inr None)) \<and>
   (readTree s h = Inr es \<and> distinct (map path es) \<and> findIndex (\<lambda>e. path e = d) es = Some i \<and>
    (rest = [] \<or> type (es ! i) = TTree \<and> removeTreeEntry s (oid (es ! i)) rest = (sc, Inr None)) \<and>
    removeTreeEntry s h (d # rest) = (s', Inr (Some h')) \<longrightarrow>
      entryAt (Some h') d = None \<and>
      (\<forall>q. q \<noteq> d \<longrightarrow> entryAt (Some h') q = entryAt (Some h) q))"
proof (intro conjI impI allI)
  assume "removeTreeEntry s h parts = (s', Inr None)"
  then show "s' = s" by (rule removeTreeEntry_quiet) simp
next
  assume "removeTreeEntry s h parts = (s', out)" "HTree [] \<in> s'"
  then show "HTree [] \<in> s" by (auto dest: removeTreeEntry_writes)
next
  assume a: "readTree s h = Inr es \<and> findIndex (\<lambda>e. path e = d) es = Some i \<and> type (es ! i) = TTree \<and>
    rest \<noteq> [] \<and> removeTreeEntry s (oid (es ! i)) rest = (sc, Inr None)"
  then have "sc = s" by (auto dest: removeTreeEntry_quiet)
  with a show "removeTreeEntry s h (d # rest) =
        (if splice1 i es = [] then (s, Inr None)
         else (insert (HTree (sort_key path (splice1 i es))) s,
               Inr (Some (HTree (sort_key path (splice1 i es))))))"
    by (simp add: removeTreeEntry_step finishRemove_eq del: removeTreeEntry.simps)
next
  assume "readTree s h = Inr es \<and> findIndex (\<lambda>e. path e = d) es = Some i"
  then show "removeTreeEntry s h [d] =
        (if splice1 i es = [] then (s, Inr None)
         else (insert (HTree (sort_key path (splice1 i es))) s,
               Inr (Some (HTree (sort_key path (splice1 i es))))))"
    by (simp add: removeTreeEntry_last finishRemove_eq del: removeTreeEntry.simps)
next
  assume a: "removeTreeEntry s h parts = (s', Inr None)"
  then have "s' = s" by (rule removeTreeEntry_quiet) simp
  with a show "removeRoot s h parts = (insert (HTree []) s, Inr (HTree []))"
    by (simp add: removeRoot_def writeTree_eq)
next
  assume "removeTreeEntry s h parts = (s', Inr (Some h'))"
  then show "removeRoot s h parts = (s', Inr h')" by (simp add: removeRoot_def)
next
  assume "removeTreeEntry s h parts = (s', Inr (Some h'))"
  then show "h' \<noteq> HTree []" by (rule removeTreeEntry_nonempty)
next
  assume "removeTreeEntry s h parts = (s', Inl err)"
  then show "removeRoot s h parts = (s', Inl err)" by (simp add: removeRoot_def)
next
  assume a: "readTree s h = Inr [only] \<and> path only = d"
  then have "findIndex (\<lambda>e. path e = d) [only] = Some 0" by simp
  with a have "removeTreeEntry s h [d] = finishRemove s (splice1 0 [only])"
    by (intro removeTreeEntry_last) simp_all
  then show "removeTreeEntry s h [d] = (s, Inr None)"
    by (simp add: splice1_def finishRemove_def)
next
  assume a: "readTree s h = Inr es \<and> distinct (map path es) \<and> findIndex (\<lambda>e. path e = d) es = Some i \<and>
    (rest = [] \<or> type (es ! i) = TTree \<and> removeTreeEntry s (oid (es ! i)) rest = (sc, Inr None)) \<and>
    removeTreeEntry s h (d # rest) = (s', Inr (Some h'))"
  then have pre: "readTree s h = Inr es" "distinct (map path es)"
    "findIndex (\<lambda>e. path e = d) es = Some i"
    "rest = [] \<or> type (es ! i) = TTree \<and> removeTreeEntry s (oid (es ! i)) rest = (sc, Inr None)"
    "removeTreeEntry s h (d # rest) = (s', Inr (Some h'))"
    by blast+
  show "entryAt (Some h') d = None"
    using removeTreeEntry_drops[OF pre, of d] by simp
next
  fix q
  assume a: "readTree s h = Inr es \<and> distinct (map path es) \<and> findIndex (\<lambda>e. path e = d) es = Some i \<and>
    (rest = [] \<or> type (es ! i) = TTree \<and> removeTreeEntry s (oid (es ! i)) rest = (sc, Inr None)) \<and>
    removeTreeEntry s h (d # rest) = (s', Inr (Some h'))"
    and q: "q \<noteq> d"
  from a have pre: "readTree s h = Inr es" "distinct (map path es)"
    "findIndex (\<lambda>e. path e = d) es = Some i"
    "rest = [] \<or> type (es ! i) = TTree \<and> removeTreeEntry s (oid (es ! i)) rest = (sc, Inr None)"
    "removeTreeEntry s h (d # rest) = (s', Inr (Some h'))"
    by blast+
  show "entryAt (Some h') q = entryAt (Some h) q"
    using removeTreeEntry_drops[OF pre, of q] q by simp
qed

theorem remove_prunes_empty_directories_witness:
  "removeTreeEntry exStore exSrc [''a.txt''] = (exStore, Inr None) \<and>
   removeTreeEntry exStore exBase [''src'', ''a.txt'']
     = (insert (HTree [exReadme]) exStore, Inr (Some (HTree [exReadme]))) \<and>
   removeRoot exStore exSrc [''a.txt''] = (insert (HTree []) exStore, Inr (HTree [])) \<and>
   HTree [] \<notin> exStore \<and>
   HTree [] \<notin> fst (removeTreeEntry exStore exBase [''src'', ''a.txt'']) \<and>
   removeRoot exStore exBase [''src'', ''a.txt'']
     = (insert (HTree [exReadme]) exStore, Inr (HTree [exReadme])) \<and>
   HTree [exReadme] \<noteq> HTree [] \<and>
   removeRoot exStore exBase [''docs''] = (exStore, Inl (SegmentNotFound ''docs'' exBase)) \<and>
   entryAt (Some (HTree [exReadme])) ''src'' = None \<and>
   entryAt (Some (HTree [exReadme])) ''README.md'' = entryAt (Some exBase) ''README.md'' \<and>
   entryAt (Some exBase) ''README.md'' = Some exReadme"
proof -
  let ?es = "[exReadme, Entry ''040000'' ''src'' exSrc TTree]"
  have hyp: "readTree exStore exBase = Inr ?es \<and>
      findIndex (\<lambda>e. path e = ''src'') ?es = Some 1 \<and> type (?es ! 1) = TTree \<and>
      [''a.txt''] \<noteq> [] \<and> removeTreeEntry exStore (oid (?es ! 1)) [''a.txt''] = (exStore, Inr None)"
    by code_simp
  have rhs: "(if splice1 1 ?es = [] then (exStore, Inr None)
         else (insert (HTree (sort_key path (splice1 1 ?es))) exStore,
               Inr (Some (HTree (sort_key path (splice1 1 ?es))))))
       = (insert (HTree [exReadme]) exStore, (Inr (Some (HTree [exReadme])) :: error + hash option))"
    by code_simp
  have no: "HTree [] \<notin> exStore"
    by code_simp
  have one: "readTree exStore exSrc = Inr [Entry ''100644'' ''a.txt'' (HBlob ''1'') TBlob] \<and>
      path (Entry ''100644'' ''a.txt'' (HBlob ''1'') TBlob) = ''a.txt''"
    by code_simp
  have miss: "removeTreeEntry exStore exBase [''docs''] = (exStore, Inl (SegmentNotFound ''docs'' exBase))"
    by code_simp
  have uniq: "distinct (map path ?es)"
    by code_simp
  have old: "entryAt (Some exBase) ''README.md'' = Some exReadme"
    by code_simp
  note leafc = remove_prunes_empty_directories[where s=exStore and h=exSrc and d="''a.txt''"
      and only="Entry ''100644'' ''a.txt'' (HBlob ''1'') TBlob"]
  have leaf: "removeTreeEntry exStore exSrc [''a.txt''] = (exStore, Inr None)"
    using leafc[THEN conjunct2, THEN conjunct2, THEN conjunct2, THEN conjunct2, THEN conjunct2, THEN conjunct2, THEN conjunct2, THEN conjunct1, THEN mp, OF one] .
  note dir = remove_prunes_empty_directories[where s=exStore and h=exBase and d="''src''"
      and es="?es" and i=1 and rest="[''a.txt'']"
      and sc=exStore and parts="[''src'', ''a.txt'']"
      and s'="fst (removeTreeEntry exStore exBase [''src'', ''a.txt''])"
      and out="snd (removeTreeEntry exStore exBase [''src'', ''a.txt''])"]
  note root = remove_prunes_empty_directories[where s=exStore and h=exSrc and parts="[''a.txt'']"
      and s'=exStore]
  have parent: "removeTreeEntry exStore exBase [''src'', ''a.txt'']
     = (insert (HTree [exReadme]) exStore, Inr (Some (HTree [exReadme])))"
    using dir[THEN conjunct2, THEN conjunct2, THEN conjunct1, THEN mp, OF hyp]
    unfolding rhs .
  have never: "HTree [] \<notin> fst (removeTreeEntry exStore exBase [''src'', ''a.txt''])"
    using dir[THEN conjunct2, THEN conjunct1] no by auto
  have top: "removeRoot exStore exSrc [''a.txt''] = (insert (HTree []) exStore, Inr (HTree []))"
    using root[THEN conjunct2, THEN conjunct2, THEN conjunct2, THEN conjunct2, THEN conjunct1, THEN mp, OF leaf] .
  note kept = remove_prunes_empty_directories[where s=exStore and h=exBase and d="''src''"
      and es="?es" and i=1 and rest="[''a.txt'']" and sc=exStore and parts="[''src'', ''a.txt'']"
      and s'="insert (HTree [exReadme]) exStore" and h'="HTree [exReadme]"]
  have whole: "removeRoot exStore exBase [''src'', ''a.txt'']
     = (insert (HTree [exReadme]) exStore, Inr (HTree [exReadme])) \<and> HTree [exReadme] \<noteq> HTree []"
    using kept[THEN conjunct2, THEN conjunct2, THEN conjunct2, THEN conjunct2, THEN conjunct2, THEN conjunct1, THEN mp, OF parent] .
  have hyp2: "readTree exStore exBase = Inr ?es \<and> distinct (map path ?es) \<and>
      findIndex (\<lambda>e. path e = ''src'') ?es = Some 1 \<and>
      ([''a.txt''] = [] \<or> type (?es ! 1) = TTree \<and>
         removeTreeEntry exStore (oid (?es ! 1)) [''a.txt''] = (exStore, Inr None)) \<and>
      removeTreeEntry exStore exBase (''src'' # [''a.txt'']) = (insert (HTree [exReadme]) exStore, Inr (Some (HTree [exReadme])))"
    using hyp uniq parent by (simp del: removeTreeEntry.simps)
  note both = kept[THEN conjunct2, THEN conjunct2, THEN conjunct2, THEN conjunct2, THEN conjunct2, THEN conjunct2, THEN conjunct2, THEN conjunct2, THEN mp, OF hyp2]
  have gone: "entryAt (Some (HTree [exReadme])) ''src'' = None"
    using both by (rule conjunct1)
  have "''README.md'' \<noteq> ''src'' \<longrightarrow>
      entryAt (Some (HTree [exReadme])) ''README.md'' = entryAt (Some exBase) ''README.md''"
    using both[THEN conjunct2] by (rule spec)
  then have same: "entryAt (Some (HTree [exReadme])) ''README.md'' = entryAt (Some exBase) ''README.md''"
    by simp
  note failc = remove_prunes_empty_directories[where s=exStore and h=exBase and parts="[''docs'']"
      and s'=exStore and err="SegmentNotFound ''docs'' exBase"]
  have fails: "removeRoot exStore exBase [''docs''] = (exStore, Inl (SegmentNotFound ''docs'' exBase))"
    using failc[THEN conjunct2, THEN conjunct2, THEN conjunct2, THEN conjunct2, THEN conjunct2, THEN conjunct2, THEN conjunct1, THEN mp, OF miss] .
  from leaf parent top no never whole fails gone same old show ?thesis by blast
qed

text \<open>
  C6.  A removal fails as the walk to the path fails: with the missing segment
  where the walk misses a segment at its level, and with the file's name where
  the walk would have to pass through a file.  A failed removal has written no
  object, and the remove flow then ends with the repository as it was: no
  tree, no commit and no ref change.
\<close>

theorem remove_fails_cleanly:
  assumes "parts \<noteq> []"
  shows "(resolveParts s h tp parts = Inl (PathNotFound tp x) \<longrightarrow>
            (\<exists>t. removeTreeEntry s h parts = (s, Inl (SegmentNotFound x t)))) \<and>
         (resolveParts s h tp parts = Inl (IsAFile x) \<longrightarrow>
            removeTreeEntry s h parts = (s, Inl (NotADirectory x))) \<and>
         (removeTreeEntry s h parts = (s', Inl e) \<longrightarrow> s' = s) \<and>
         (refName \<noteq> [] \<and> filePath \<noteq> [] \<and> resolveRef r refName = Inr c \<and> readCommit r c = Inr cm \<and>
          removeTreeEntry (objects r) (ctree cm) (pathParts filePath) = (s'', Inl e') \<longrightarrow>
            removeFileMain concurrent now r refName filePath = (r, Inl e'))"
proof (intro conjI impI)
  assume "resolveParts s h tp parts = Inl (PathNotFound tp x)"
  with removeTreeEntry_as_walk[OF assms, where s=s and tp=tp and h=h and m=None and prev="[]"]
  show "\<exists>t. removeTreeEntry s h parts = (s, Inl (SegmentNotFound x t))"
    by (simp add: resolveParts_def)
next
  assume "resolveParts s h tp parts = Inl (IsAFile x)"
  with removeTreeEntry_as_walk[OF assms, where s=s and tp=tp and h=h and m=None and prev="[]"]
  show "removeTreeEntry s h parts = (s, Inl (NotADirectory x))"
    by (simp add: resolveParts_def)
next
  assume "removeTreeEntry s h parts = (s', Inl e)"
  then show "s' = s" by (rule removeTreeEntry_quiet) simp
next
  assume a: "refName \<noteq> [] \<and> filePath \<noteq> [] \<and> resolveRef r refName = Inr c \<and> readCommit r c = Inr cm \<and>
          removeTreeEntry (objects r) (ctree cm) (pathParts filePath) = (s'', Inl e')"
  then have "s'' = objects r" by (auto dest: removeTreeEntry_quiet)
  with a show "removeFileMain concurrent now r refName filePath = (r, Inl e')"
    by (simp add: removeFileMain_def removeRoot_def)
qed

theorem remove_fails_cleanly_witness:
  "resolveParts exStore exBase ''src/zzz'' [''src'', ''zzz''] = Inl (PathNotFound ''src/zzz'' ''zzz'') \<and>
   removeFileMain id 5 exRepo ''main'' ''src/zzz'' = (exRepo, Inl (SegmentNotFound ''zzz'' exSrc)) \<and>
   resolveParts exStore exBase ''README.md/x'' [''README.md'', ''x''] = Inl (IsAFile ''README.md'') \<and>
   removeTreeEntry exStore exBase [''README.md'', ''x''] = (exStore, Inl (NotADirectory ''README.md''))"
proof -
  have a: "resolveParts exStore exBase ''src/zzz'' [''src'', ''zzz''] = Inl (PathNotFound ''src/zzz'' ''zzz'')"
    and b: "resolveRef exRepo ''main'' = Inr exC0" "readCommit exRepo exC0 = Inr exC0"
       "removeTreeEntry (objects exRepo) (ctree exC0) (pathParts ''src/zzz'')
          = (exStore, Inl (SegmentNotFound ''zzz'' exSrc))"
    and c: "resolveParts exStore exBase ''README.md/x'' [''README.md'', ''x''] = Inl (IsAFile ''README.md'')"
    by code_simp+
  have main: "removeFileMain id 5 exRepo ''main'' ''src/zzz'' = (exRepo, Inl (SegmentNotFound ''zzz'' exSrc))"
    using b remove_fails_cleanly[where parts="[''src'', ''zzz'']" and r=exRepo and refName="''main''"
        and filePath="''src/zzz''" and c=exC0 and cm=exC0 and s''=exStore
        and e'="SegmentNotFound ''zzz'' exSrc" and concurrent=id and now=5]
    by simp
  have blob: "removeTreeEntry exStore exBase [''README.md'', ''x''] = (exStore, Inl (NotADirectory ''README.md''))"
    using c remove_fails_cleanly[where parts="[''README.md'', ''x'']" and s=exStore and h=exBase
        and tp="''README.md/x''" and x="''README.md''"]
    by simp
  from a main c blob show ?thesis by simp
qed

text \<open>
  C8.  After an upsert into a well-formed tree of the store (or into no tree),
  the walk to the path finds the new blob, and the walk to any path that
  leaves the line from the root to the leaf finds exactly what it found in
  the old tree: the same object, mode and kind, or nothing.
\<close>

theorem upsert_round_trip_and_frame:
  assumes "T = None \<or> (\<exists>es. T = Some (HTree es) \<and> validTree s (HTree es))"
    and "upsertTree s T parts X = (s', Inr h)"
  shows "resolveParts s' h tp parts = Inr \<lparr>sha = X, tmode = Some ''100644'', ttype = TBlob\<rparr> \<and>
         (\<forall>q r. \<not> prefix q parts \<and> \<not> prefix parts q \<longrightarrow>
            (resolveParts s' h tq q = Inr r) = (\<exists>t. T = Some t \<and> resolveParts s t tq q = Inr r))"
proof (intro conjI allI impI)
  show "resolveParts s' h tp parts = Inr \<lparr>sha = X, tmode = Some ''100644'', ttype = TBlob\<rparr>"
    unfolding resolveParts_def using assms(2) by (rule upsertTree_readback)
next
  fix q r
  assume q: "\<not> prefix q parts \<and> \<not> prefix parts q"
  from assms(1) show "(resolveParts s' h tq q = Inr r) = (\<exists>t. T = Some t \<and> resolveParts s t tq q = Inr r)"
  proof
    assume "T = None"
    with assms(2) q show ?thesis
      unfolding resolveParts_def by (auto dest: upsert_fresh_frame)
  next
    assume "\<exists>es. T = Some (HTree es) \<and> validTree s (HTree es)"
    then obtain es where es: "T = Some (HTree es)" "validTree s (HTree es)" by blast
    have "(walkParts s' tq \<lparr>sha = h, tmode = None, ttype = TTree\<rparr> [] q = Inr r) =
          (walkParts s tq \<lparr>sha = HTree es, tmode = None, ttype = TTree\<rparr> [] q = Inr r)"
      by (rule upsert_frame[OF es(2) _ subset_refl]) (use assms(2) es(1) q in auto)
    with es(1) show ?thesis by (simp add: resolveParts_def)
  qed
qed

theorem upsert_round_trip_and_frame_witness:
  "validTree exStore exBase \<and>
   upsertTree exStore (Some exBase) [''src'', ''b.txt''] (HBlob ''2'')
     = (insert exAdded (insert exSrcAB exStore), Inr exAdded) \<and>
   resolveParts (insert exAdded (insert exSrcAB exStore)) exAdded ''src/b.txt'' [''src'', ''b.txt'']
     = Inr \<lparr>sha = HBlob ''2'', tmode = Some ''100644'', ttype = TBlob\<rparr> \<and>
   resolveParts exStore exBase ''README.md'' [''README.md'']
     = Inr \<lparr>sha = HBlob ''Hello'', tmode = Some ''100644'', ttype = TBlob\<rparr> \<and>
   resolveParts (insert exAdded (insert exSrcAB exStore)) exAdded ''README.md'' [''README.md'']
     = Inr \<lparr>sha = HBlob ''Hello'', tmode = Some ''100644'', ttype = TBlob\<rparr>"
proof -
  let ?es = "[exReadme, Entry ''040000'' ''src'' exSrc TTree]"
  have b: "exBase = HTree ?es" by (simp add: exBase_def)
  have v: "validTree exStore exBase" by code_simp
  have u: "upsertTree exStore (Some exBase) [''src'', ''b.txt''] (HBlob ''2'')
     = (insert exAdded (insert exSrcAB exStore), Inr exAdded)"
    by code_simp
  have old: "resolveParts exStore exBase ''README.md'' [''README.md'']
     = Inr \<lparr>sha = HBlob ''Hello'', tmode = Some ''100644'', ttype = TBlob\<rparr>"
    by code_simp
  have hyp: "Some exBase = None \<or> (\<exists>es. Some exBase = Some (HTree es) \<and> validTree exStore (HTree es))"
    using v[unfolded b] b by blast
  note inst = upsert_round_trip_and_frame[OF hyp u, where tp="''src/b.txt''" and tq="''README.md''"]
  have np: "\<not> prefix [''README.md''] [''src'', ''b.txt''] \<and> \<not> prefix [''src'', ''b.txt''] [''README.md'']"
    by simp
  from inst have rb: "resolveParts (insert exAdded (insert exSrcAB exStore)) exAdded ''src/b.txt'' [''src'', ''b.txt'']
     = Inr \<lparr>sha = HBlob ''2'', tmode = Some ''100644'', ttype = TBlob\<rparr>"
    by blast
  from inst np old have new: "resolveParts (insert exAdded (insert exSrcAB exStore)) exAdded ''README.md'' [''README.md'']
     = Inr \<lparr>sha = HBlob ''Hello'', tmode = Some ''100644'', ttype = TBlob\<rparr>"
    by blast
  from v u rb old new show ?thesis by blast
qed

text \<open>
  C9.  For a well-formed tree \<open>T\<close> of the store and a path that the walk
  does not find in \<open>T\<close>, the upsert of the path succeeds and the removal
  of the path from its result gives back exactly \<open>T\<close>: the directories
  that the upsert created are pruned away again.  The recursive removal
  answers \<open>T\<close> itself unless \<open>T\<close> is the empty root, for which it
  answers the marker that the remove flow turns into the empty tree.
\<close>

theorem remove_after_upsert_restores:
  assumes "validTree s (HTree es)"
    and "resolveParts s (HTree es) tp parts = Inl (PathNotFound tp x)"
  shows "\<exists>sa h. upsertTree s (Some (HTree es)) parts X = (sa, Inr h) \<and>
                removeTreeEntry sa h parts = (sa, Inr (if es = [] then None else Some (HTree es))) \<and>
                removeRoot sa h parts = (sa, Inr (HTree es))"
proof -
  from remove_upsert[OF assms(1) assms(2)[unfolded resolveParts_def], of X]
  obtain sa h where up: "upsertTree s (Some (HTree es)) parts X = (sa, Inr h)"
    and rm: "removeTreeEntry sa h parts = (sa, Inr (if es = [] then None else Some (HTree es)))"
    by blast
  from up have "s \<subseteq> sa" by (rule upsertTree_store_mono)
  with assms(1) have "HTree es \<in> sa" by auto
  with rm have "removeRoot sa h parts = (sa, Inr (HTree es))"
    by (cases "es = []") (auto simp: removeRoot_def writeTree_eq insert_absorb)
  with up rm show ?thesis by blast
qed

theorem remove_after_upsert_restores_witness:
  "validTree exStore exBase \<and>
   resolveParts exStore exBase ''docs/x.md'' [''docs'', ''x.md'']
     = Inl (PathNotFound ''docs/x.md'' ''docs'') \<and>
   upsertTree exStore (Some exBase) [''docs'', ''x.md''] (HBlob ''x'')
     = (insert exWithDocs exStore, Inr exWithDocs) \<and>
   removeRoot (insert exWithDocs exStore) exWithDocs [''docs'', ''x.md'']
     = (insert exWithDocs exStore, Inr exBase)"
proof -
  let ?es = "[exReadme, Entry ''040000'' ''src'' exSrc TTree]"
  have b: "exBase = HTree ?es" by (simp add: exBase_def)
  have v: "validTree exStore exBase" by code_simp
  have nf: "resolveParts exStore exBase ''docs/x.md'' [''docs'', ''x.md'']
     = Inl (PathNotFound ''docs/x.md'' ''docs'')"
    by code_simp
  have u: "upsertTree exStore (Some exBase) [''docs'', ''x.md''] (HBlob ''x'')
     = (insert exWithDocs exStore, Inr exWithDocs)"
    by code_simp
  from remove_after_upsert_restores[OF v[unfolded b] nf[unfolded b], of "HBlob ''x''"] u
  have "removeRoot (insert exWithDocs exStore) exWithDocs [''docs'', ''x.md'']
     = (insert exWithDocs exStore, Inr exBase)"
    unfolding b by auto
  with v nf u show ?thesis by blast
qed

text \<open>
  C3, as amended.  When the merge of a level comes, after the names before it
  have merged, to a name that neither ours nor theirs has as a directory, at
  which the objects of ours and theirs differ from that of base and from each
  other, and the lookup of that name in the resolutions is falsy (the
  resolutions hold no content, or empty content, under the name, and the name
  is not that of a member every object inherits), the merge of the level fails
  with the conflict at that name, the name of the entry; the failure of a
  subdirectory's merge is the failure of the level above it; and the merge
  flow then ends with the failure, without a commit and with every ref as it
  was.  Its object store is the one the failed merge left.
\<close>

theorem merge_conflict_aborts:
  "(readEntries s b = Inr be \<and> readEntries s ou = Inr oe \<and> readEntries s t = Inr te \<and>
    allPaths be oe te = qs @ p # ps \<and> mergeLoop res s be oe te qs [] = (sa, Inr acc) \<and>
    \<not> isTree (mapGet oe p) \<and> \<not> isTree (mapGet te p) \<and> shaOf oe p \<noteq> shaOf te p \<and>
    shaOf oe p \<noteq> shaOf be p \<and> shaOf te p \<noteq> shaOf be p \<and> \<not> truthy (getProperty res p) \<longrightarrow>
      mergeTrees res s b ou t = (sa, Inl (MergeConflict p))) \<and>
   (readEntries s b = Inr be \<and> readEntries s ou = Inr oe \<and> readEntries s t = Inr te \<and>
    allPaths be oe te = qs @ p # ps \<and> mergeLoop res s be oe te qs [] = (sa, Inr acc) \<and>
    (isTree (mapGet oe p) \<or> isTree (mapGet te p)) \<and>
    mergeTrees res sa (shaOf be p) (shaOf oe p) (shaOf te p) = (sb, Inl e) \<longrightarrow>
      mergeTrees res s b ou t = (sb, Inl e)) \<and>
   (sourceBranch \<noteq> [] \<and> destBranch \<noteq> [] \<and>
    resolveRef r (fullRef sourceBranch) = Inr sourceSha \<and>
    resolveRef r (fullRef destBranch) = Inr destSha \<and>
    findMergeBase destSha sourceSha = baseSha # others \<and>
    readCommit r baseSha = Inr baseCommit \<and> readCommit r sourceSha = Inr sourceCommit \<and>
    readCommit r destSha = Inr destCommit \<and>
    mergeTrees res (objects r) (Some (ctree baseCommit)) (Some (ctree destCommit))
      (Some (ctree sourceCommit)) = (sc, Inl e') \<longrightarrow>
      mergeMain findMergeBase concurrent now res r sourceBranch destBranch
        = (r\<lparr>objects := sc\<rparr>, Inl e'))"
proof (intro conjI impI)
  assume a: "readEntries s b = Inr be \<and> readEntries s ou = Inr oe \<and> readEntries s t = Inr te \<and>
    allPaths be oe te = qs @ p # ps \<and> mergeLoop res s be oe te qs [] = (sa, Inr acc) \<and>
    \<not> isTree (mapGet oe p) \<and> \<not> isTree (mapGet te p) \<and> shaOf oe p \<noteq> shaOf te p \<and>
    shaOf oe p \<noteq> shaOf be p \<and> shaOf te p \<noteq> shaOf be p \<and> \<not> truthy (getProperty res p)"
  then have step: "mergeLoop res sa be oe te (p # ps) acc = (sa, Inl (MergeConflict p))"
    by (intro mergeLoop_conflict) simp_all
  from a have names: "allPaths be oe te = qs @ p # ps"
    and before: "mergeLoop res s be oe te qs [] = (sa, Inr acc)"
    by simp_all
  from a have rds: "readEntries s b = Inr be" "readEntries s ou = Inr oe" "readEntries s t = Inr te"
    by simp_all
  have "mergeLoop res s be oe te (allPaths be oe te) [] = (sa, Inl (MergeConflict p))"
    unfolding names mergeLoop_append before using step by simp
  then show "mergeTrees res s b ou t = (sa, Inl (MergeConflict p))"
    by (rule mergeTrees_loop_fails[OF rds])
next
  assume a: "readEntries s b = Inr be \<and> readEntries s ou = Inr oe \<and> readEntries s t = Inr te \<and>
    allPaths be oe te = qs @ p # ps \<and> mergeLoop res s be oe te qs [] = (sa, Inr acc) \<and>
    (isTree (mapGet oe p) \<or> isTree (mapGet te p)) \<and>
    mergeTrees res sa (shaOf be p) (shaOf oe p) (shaOf te p) = (sb, Inl e)"
  then have step: "mergeLoop res sa be oe te (p # ps) acc = (sb, Inl e)"
    by (intro mergeLoop_dir_fails) simp_all
  from a have names: "allPaths be oe te = qs @ p # ps"
    and before: "mergeLoop res s be oe te qs [] = (sa, Inr acc)"
    by simp_all
  from a have rds: "readEntries s b = Inr be" "readEntries s ou = Inr oe" "readEntries s t = Inr te"
    by simp_all
  have "mergeLoop res s be oe te (allPaths be oe te) [] = (sb, Inl e)"
    unfolding names mergeLoop_append before using step by simp
  then show "mergeTrees res s b ou t = (sb, Inl e)"
    by (rule mergeTrees_loop_fails[OF rds])
next
  assume "sourceBranch \<noteq> [] \<and> destBranch \<noteq> [] \<and>
    resolveRef r (fullRef sourceBranch) = Inr sourceSha \<and>
    resolveRef r (fullRef destBranch) = Inr destSha \<and>
    findMergeBase destSha sourceSha = baseSha # others \<and>
    readCommit r baseSha = Inr baseCommit \<and> readCommit r sourceSha = Inr sourceCommit \<and>
    readCommit r destSha = Inr destCommit \<and>
    mergeTrees res (objects r) (Some (ctree baseCommit)) (Some (ctree destCommit))
      (Some (ctree sourceCommit)) = (sc, Inl e')"
  then show "mergeMain findMergeBase concurrent now res r sourceBranch destBranch
        = (r\<lparr>objects := sc\<rparr>, Inl e')"
    by (simp add: mergeMain_def Let_def)
qed

theorem merge_conflict_aborts_witness:
  "mergeTrees Map.empty exStoreF (Some (HTree [exF ''0''])) (Some (HTree [exF ''1''])) (Some (HTree [exF ''2'']))
     = (exStoreF, Inl (MergeConflict ''f'')) \<and>
   mergeTrees Map.empty exStoreF (Some (HTree [exD ''0''])) (Some (HTree [exD ''1''])) (Some (HTree [exD ''2'']))
     = (exStoreF, Inl (MergeConflict ''f'')) \<and>
   mergeMain (\<lambda>d s. [exCB]) id 9 Map.empty exRepoF ''feature'' ''main''
     = (exRepoF\<lparr>objects := exStoreF\<rparr>, Inl (MergeConflict ''f''))"
proof -
  have h1: "readEntries exStoreF (Some (HTree [exF ''0''])) = Inr [exF ''0''] \<and>
      readEntries exStoreF (Some (HTree [exF ''1''])) = Inr [exF ''1''] \<and>
      readEntries exStoreF (Some (HTree [exF ''2''])) = Inr [exF ''2''] \<and>
      allPaths [exF ''0''] [exF ''1''] [exF ''2''] = [] @ ''f'' # [] \<and>
      mergeLoop Map.empty exStoreF [exF ''0''] [exF ''1''] [exF ''2''] [] [] = (exStoreF, Inr []) \<and>
      \<not> isTree (mapGet [exF ''1''] ''f'') \<and> \<not> isTree (mapGet [exF ''2''] ''f'') \<and>
      shaOf [exF ''1''] ''f'' \<noteq> shaOf [exF ''2''] ''f'' \<and>
      shaOf [exF ''1''] ''f'' \<noteq> shaOf [exF ''0''] ''f'' \<and>
      shaOf [exF ''2''] ''f'' \<noteq> shaOf [exF ''0''] ''f'' \<and> \<not> truthy (getProperty Map.empty ''f'')"
    by code_simp
  have level: "mergeTrees Map.empty exStoreF (Some (HTree [exF ''0''])) (Some (HTree [exF ''1'']))
      (Some (HTree [exF ''2''])) = (exStoreF, Inl (MergeConflict ''f''))"
    using merge_conflict_aborts[THEN conjunct1, THEN mp, OF h1] .
  have sh: "shaOf [exD ''0''] ''d'' = Some (HTree [exF ''0''])"
    "shaOf [exD ''1''] ''d'' = Some (HTree [exF ''1''])"
    "shaOf [exD ''2''] ''d'' = Some (HTree [exF ''2''])"
    by code_simp+
  have h2: "readEntries exStoreF (Some (HTree [exD ''0''])) = Inr [exD ''0''] \<and>
      readEntries exStoreF (Some (HTree [exD ''1''])) = Inr [exD ''1''] \<and>
      readEntries exStoreF (Some (HTree [exD ''2''])) = Inr [exD ''2''] \<and>
      allPaths [exD ''0''] [exD ''1''] [exD ''2''] = [] @ ''d'' # [] \<and>
      mergeLoop Map.empty exStoreF [exD ''0''] [exD ''1''] [exD ''2''] [] [] = (exStoreF, Inr []) \<and>
      (isTree (mapGet [exD ''1''] ''d'') \<or> isTree (mapGet [exD ''2''] ''d''))"
    by code_simp
  have inner: "mergeTrees Map.empty exStoreF (shaOf [exD ''0''] ''d'') (shaOf [exD ''1''] ''d'')
      (shaOf [exD ''2''] ''d'') = (exStoreF, Inl (MergeConflict ''f''))"
    unfolding sh by (rule level)
  have nested: "mergeTrees Map.empty exStoreF (Some (HTree [exD ''0''])) (Some (HTree [exD ''1'']))
      (Some (HTree [exD ''2''])) = (exStoreF, Inl (MergeConflict ''f''))"
    using merge_conflict_aborts[THEN conjunct2, THEN conjunct1, THEN mp] h2 inner by blast
  have trees: "ctree exCB = HTree [exD ''0'']" "ctree exCO = HTree [exD ''1'']"
    "ctree exCT = HTree [exD ''2'']" "objects exRepoF = exStoreF"
    by code_simp+
  have h3: "''feature'' \<noteq> [] \<and> ''main'' \<noteq> [] \<and>
      resolveRef exRepoF (fullRef ''feature'') = Inr exCT \<and>
      resolveRef exRepoF (fullRef ''main'') = Inr exCO \<and>
      (\<lambda>d s. [exCB]) exCO exCT = exCB # [] \<and>
      readCommit exRepoF exCB = Inr exCB \<and> readCommit exRepoF exCT = Inr exCT \<and>
      readCommit exRepoF exCO = Inr exCO"
    by code_simp
  have flow: "mergeMain (\<lambda>d s. [exCB]) id 9 Map.empty exRepoF ''feature'' ''main''
     = (exRepoF\<lparr>objects := exStoreF\<rparr>, Inl (MergeConflict ''f''))"
    using merge_conflict_aborts[where r=exRepoF and sourceBranch="''feature''" and destBranch="''main''"
        and sourceSha=exCT and destSha=exCO and findMergeBase="\<lambda>d s. [exCB]" and baseSha=exCB
        and others="[]" and baseCommit=exCB and sourceCommit=exCT and destCommit=exCO
        and res=Map.empty and sc=exStoreF and e'="MergeConflict ''f''" and concurrent=id and now=9,
        THEN conjunct2, THEN conjunct2, THEN mp]
      h3 nested
    unfolding trees by blast
  from level nested flow show ?thesis by blast
qed

text \<open>
  The claim as stated fails on four counts: the conflict at \<^verbatim>\<open>d/f\<close> is
  reported under the name \<^verbatim>\<open>f\<close>, and the tree merged for the directory
  \<^verbatim>\<open>a\<close> before the conflict was met has been written to the store; a
  conflict at a file named \<^verbatim>\<open>constructor\<close>, with no resolution supplied,
  ends in a \<^verbatim>\<open>TypeError\<close>, the lookup having found the inherited member;
  and where theirs has turned the file into a directory, the merge fails on
  reading a file as a tree.
\<close>

theorem merge_conflict_counterexample:
  "mergeTrees Map.empty exStoreC (Some (exTreeC ''0'' ''0'' ''0'')) (Some (exTreeC ''1'' ''0'' ''1''))
     (Some (exTreeC ''0'' ''2'' ''2''))
     = (insert (exDirA ''1'' ''2'') exStoreC, Inl (MergeConflict ''f'')) \<and>
   exDirA ''1'' ''2'' \<notin> exStoreC \<and>
   mergeTrees Map.empty exStoreK (Some (exCtor ''0'')) (Some (exCtor ''1'')) (Some (exCtor ''2''))
     = (exStoreK, Inl TypeError) \<and>
   mergeTrees Map.empty exStoreD (Some (HTree [exF ''0''])) (Some (HTree [exF ''1'']))
     (Some (HTree [Entry ''040000'' ''f'' exDocs TTree]))
     = (exStoreD, Inl (ObjectTypeError (HBlob ''0'')))"
  by code_simp

end
